theory Spec2Isabelle
  imports Main "HOL-Library.Word"
begin

unbundle bit_operations_syntax

section \<open>Character classification (types.go)\<close>

text \<open>
  A Go \<^verbatim>\<open>rune\<close> is an \<^verbatim>\<open>int32\<close>; the lexer only ever sees the values that
  \<^verbatim>\<open>utf8.DecodeRuneInString\<close> returns, so a rune is modelled as an \<open>int\<close>.
  A Go string that is valid UTF-8 is modelled by the list of its code points: the lexer
  reads it only through \<^verbatim>\<open>DecodeRuneInString\<close>, and a byte offset of the
  source corresponds to an index into that list.
\<close>

type_synonym rune = int
type_synonym gostring = "rune list"

text \<open>
  The tables of Go's \<^verbatim>\<open>unicode\<close> package are not part of the repository.
  \<^verbatim>\<open>White_Space\<close>, \<^verbatim>\<open>Cc\<close>, \<^verbatim>\<open>Cs\<close> and \<^verbatim>\<open>Co\<close> are fixed by
  the Unicode stability policy and are written out in full. \<^verbatim>\<open>Cf\<close> and the
  printable ranges (\<^verbatim>\<open>L, M, N, P, S\<close>) grow with every Unicode version: their
  Latin-1 part is written out, the part above U+00FF is a parameter of the model.
\<close>

record unicode_tables =
  CfRanges :: "rune \<Rightarrow> bool"
  PrintRanges :: "rune \<Rightarrow> bool"

definition unicode_White_Space :: "rune \<Rightarrow> bool" where
  "unicode_White_Space r =
     ((0x09 \<le> r \<and> r \<le> 0x0D) \<or> r = 0x20 \<or> r = 0x85 \<or> r = 0xA0 \<or> r = 0x1680
      \<or> (0x2000 \<le> r \<and> r \<le> 0x200A) \<or> r = 0x2028 \<or> r = 0x2029 \<or> r = 0x202F
      \<or> r = 0x205F \<or> r = 0x3000)"

definition unicode_Cc :: "rune \<Rightarrow> bool" where
  "unicode_Cc r = ((0x00 \<le> r \<and> r \<le> 0x1F) \<or> (0x7F \<le> r \<and> r \<le> 0x9F))"

definition unicode_Cs :: "rune \<Rightarrow> bool" where
  "unicode_Cs r = (0xD800 \<le> r \<and> r \<le> 0xDFFF)"

definition unicode_Co :: "rune \<Rightarrow> bool" where
  "unicode_Co r =
     ((0xE000 \<le> r \<and> r \<le> 0xF8FF) \<or> (0xF0000 \<le> r \<and> r \<le> 0xFFFFD)
      \<or> (0x100000 \<le> r \<and> r \<le> 0x10FFFD))"

definition unicode_Cf :: "unicode_tables \<Rightarrow> rune \<Rightarrow> bool" where
  "unicode_Cf U r = (r = 0xAD \<or> (0xFF < r \<and> CfRanges U r))"

text \<open>\<^verbatim>\<open>unicode.IsControl\<close>: the Latin-1 property table, false above it.\<close>

definition unicode_IsControl :: "rune \<Rightarrow> bool" where
  "unicode_IsControl r = ((0x00 \<le> r \<and> r \<le> 0x1F) \<or> (0x7F \<le> r \<and> r \<le> 0x9F))"

text \<open>\<^verbatim>\<open>unicode.IsSpace\<close>: a switch in Latin-1, \<^verbatim>\<open>White_Space\<close> above it.\<close>

definition unicode_IsSpace :: "rune \<Rightarrow> bool" where
  "unicode_IsSpace r =
     (if 0 \<le> r \<and> r \<le> 0xFF
      then (r = 0x09 \<or> r = 0x0A \<or> r = 0x0B \<or> r = 0x0C \<or> r = 0x0D \<or> r = 0x20
            \<or> r = 0x85 \<or> r = 0xA0)
      else unicode_White_Space r)"

text \<open>\<^verbatim>\<open>unicode.IsPrint\<close>: the Latin-1 property table, the printable ranges above it.\<close>

definition unicode_IsPrint :: "unicode_tables \<Rightarrow> rune \<Rightarrow> bool" where
  "unicode_IsPrint U r =
     (if 0 \<le> r \<and> r \<le> 0xFF
      then ((0x20 \<le> r \<and> r \<le> 0x7E) \<or> (0xA1 \<le> r \<and> r \<noteq> 0xAD))
      else PrintRanges U r)"

text \<open>\<^verbatim>\<open>utf8.ValidString\<close> on the decoded text: every code point is a scalar value.\<close>

definition ValidateUTF8 :: "gostring \<Rightarrow> bool" where
  "ValidateUTF8 s = list_all (\<lambda>r. 0 \<le> r \<and> r \<le> 0x10FFFF \<and> \<not> (0xD800 \<le> r \<and> r \<le> 0xDFFF)) s"

definition IsLineTerminator :: "rune \<Rightarrow> bool" where
  "IsLineTerminator r =
     (r = 0x0A \<or> r = 0x0B \<or> r = 0x0C \<or> r = 0x0D \<or> r = 0x85 \<or> r = 0x2028 \<or> r = 0x2029)"

definition IsWhitespace :: "rune \<Rightarrow> bool" where
  "IsWhitespace r = (if IsLineTerminator r then False else unicode_White_Space r)"

definition IsForbidden :: "unicode_tables \<Rightarrow> rune \<Rightarrow> bool" where
  "IsForbidden U r =
     (if unicode_White_Space r then False
      else if unicode_Cf U r then False
      else if unicode_Cc r then True
      else if unicode_Cs r then True
      else if unicode_Co r then False
      else if 0xFDD0 \<le> r \<and> r \<le> 0xFDEF then True
      else if r AND 0xFFFE = 0xFFFE then True
      else if \<not> unicode_IsPrint U r \<and> \<not> unicode_IsControl r \<and> \<not> unicode_IsSpace r
              \<and> \<not> unicode_Co r then True
      else False)"

definition IsReservedPunctuator :: "rune \<Rightarrow> bool" where
  "IsReservedPunctuator r = (r = 0x22 \<or> r = 0x23 \<or> r = 0x3B \<or> r = 0x7B \<or> r = 0x7D)"

definition IsArgumentChar :: "unicode_tables \<Rightarrow> rune \<Rightarrow> bool" where
  "IsArgumentChar U r =
     (if IsWhitespace r \<or> IsLineTerminator r \<or> IsReservedPunctuator r \<or> IsForbidden U r
      then False else True)"

section \<open>Tree model and tokens (types.go)\<close>

datatype Directive = Directive (Arguments: "gostring list") (Subdirectives: "Directive list")

datatype ConfigurationUnit = ConfigurationUnit (Directives: "Directive list")

datatype TokenType =
    TokenEOF
  | TokenNewline
  | TokenSemicolon
  | TokenLeftBrace
  | TokenRightBrace
  | TokenArgument
  | TokenComment
  | TokenLineContinuation

record Token =
  Type :: TokenType
  Value :: gostring
  Line :: nat
  Column :: nat

text \<open>
  The Go code reports every failure as an \<^verbatim>\<open>fmt.Errorf\<close> message; there is one
  constructor for each message, carrying the numbers the message prints.
\<close>

datatype error =
    MalformedUTF8
  | ForbiddenCharacter nat nat
  | UnexpectedCharacter rune nat nat
  | ForbiddenInComment nat
  | IllegalEscapeCharacter
  | InvalidEscapeSequence nat nat
  | InvalidEscapeQuoted nat
  | UnexpectedNewlineQuoted nat
  | ForbiddenInString nat
  | UnterminatedQuoted nat
  | InvalidEscapeTriple nat
  | UnterminatedTriple nat
  | UnmatchedRightBrace nat
  | NoArguments nat
  | ExpectedTerminator nat TokenType
  | ExpectedLeftBrace nat TokenType
  | ExpectedRightBrace nat TokenType

text \<open>The error taxonomy of the specification, and the kind each message belongs to.\<close>

datatype error_kind =
    MalformedEncoding
  | ForbiddenCharacterKind
  | UnexpectedCharacterKind
  | UnterminatedString
  | InvalidEscape
  | MissingArguments
  | UnmatchedBrace
  | UnexpectedToken

fun kind_of :: "error \<Rightarrow> error_kind" where
  "kind_of MalformedUTF8 = MalformedEncoding"
| "kind_of (ForbiddenCharacter l c) = ForbiddenCharacterKind"
| "kind_of (UnexpectedCharacter r l c) = UnexpectedCharacterKind"
| "kind_of (ForbiddenInComment l) = ForbiddenCharacterKind"
| "kind_of IllegalEscapeCharacter = InvalidEscape"
| "kind_of (InvalidEscapeSequence l c) = InvalidEscape"
| "kind_of (InvalidEscapeQuoted l) = InvalidEscape"
| "kind_of (UnexpectedNewlineQuoted l) = UnterminatedString"
| "kind_of (ForbiddenInString l) = ForbiddenCharacterKind"
| "kind_of (UnterminatedQuoted l) = UnterminatedString"
| "kind_of (InvalidEscapeTriple l) = InvalidEscape"
| "kind_of (UnterminatedTriple l) = UnterminatedString"
| "kind_of (UnmatchedRightBrace l) = UnmatchedBrace"
| "kind_of (NoArguments l) = MissingArguments"
| "kind_of (ExpectedTerminator l t) = UnexpectedToken"
| "kind_of (ExpectedLeftBrace l t) = UnexpectedToken"
| "kind_of (ExpectedRightBrace l t) = UnmatchedBrace"

section \<open>Lexer (lexer.go)\<close>

record Lexer =
  input :: gostring
  pos :: nat
  line :: nat
  column :: nat

definition NewLexer :: "gostring \<Rightarrow> Lexer" where
  "NewLexer s = \<lparr>input = s, pos = 0, line = 1, column = 1\<rparr>"

definition peek :: "Lexer \<Rightarrow> rune" where
  "peek l = (if pos l \<ge> length (input l) then 0 else input l ! pos l)"

definition advance :: "Lexer \<Rightarrow> rune \<times> Lexer" where
  "advance l =
     (if pos l \<ge> length (input l) then (0, l)
      else (input l ! pos l, l\<lparr>pos := pos l + 1, column := column l + 1\<rparr>))"

function skipWhitespace :: "Lexer \<Rightarrow> Lexer" where
  "skipWhitespace l =
     (if pos l < length (input l)
      then (if \<not> IsWhitespace (peek l) then l else skipWhitespace (snd (advance l)))
      else l)"
  by pat_completeness auto
termination
  by (relation "measure (\<lambda>l. length (input l) - pos l)") (auto simp: advance_def)

definition makeToken :: "Lexer \<Rightarrow> TokenType \<Rightarrow> gostring \<Rightarrow> Token" where
  "makeToken l typ val = \<lparr>Type = typ, Value = val, Line = line l, Column = column l\<rparr>"

definition scanNewline :: "Lexer \<Rightarrow> error + Token \<times> Lexer" where
  "scanNewline l =
     (let tok = makeToken l TokenNewline [];
          (r, l1) = advance l;
          l2 = (if r = 0x0D \<and> peek l1 = 0x0A then snd (advance l1) else l1)
      in Inr (tok, l2\<lparr>line := line l2 + 1, column := 1\<rparr>))"

function scanComment_loop :: "unicode_tables \<Rightarrow> Lexer \<Rightarrow> error + Lexer" where
  "scanComment_loop U l =
     (if pos l < length (input l)
      then (let r = peek l in
            if IsLineTerminator r then Inr l
            else if IsForbidden U r then Inl (ForbiddenInComment (line l))
            else scanComment_loop U (snd (advance l)))
      else Inr l)"
  by pat_completeness auto
termination
  by (relation "measure (\<lambda>(U, l). length (input l) - pos l)") (auto simp: advance_def)

definition scanComment :: "unicode_tables \<Rightarrow> Lexer \<Rightarrow> error + Token \<times> Lexer" where
  "scanComment U l =
     (let start = pos l in
      case scanComment_loop U (snd (advance l)) of
        Inl e \<Rightarrow> Inl e
      | Inr l1 \<Rightarrow> Inr (makeToken l1 TokenComment (take (pos l1 - start) (drop start (input l1))), l1))"

text \<open>The line-terminator branch shared by the escape handling: CR LF counts once.\<close>

definition consumeTerminator :: "Lexer \<Rightarrow> Lexer" where
  "consumeTerminator l =
     (let (term, l1) = advance l;
          l2 = (if term = 0x0D \<and> peek l1 = 0x0A then snd (advance l1) else l1)
      in l2\<lparr>line := line l2 + 1, column := 1\<rparr>)"

function scanSimpleArgument_loop ::
  "unicode_tables \<Rightarrow> Token \<Rightarrow> Lexer \<Rightarrow> gostring \<Rightarrow> error + Token \<times> Lexer" where
  "scanSimpleArgument_loop U tok l buf =
     (if pos l < length (input l)
      then (let r = peek l in
            if r = 0x5C
            then (let l1 = snd (advance l); next = peek l1 in
                  if IsLineTerminator next
                  then (if length buf > 0 then Inl IllegalEscapeCharacter
                        else (let l2 = skipWhitespace (consumeTerminator l1)
                              in Inr (makeToken l2 TokenLineContinuation [], l2)))
                  else if \<not> IsWhitespace next \<and> \<not> IsLineTerminator next \<and> \<not> IsForbidden U next
                  then scanSimpleArgument_loop U tok (snd (advance l1)) (buf @ [next])
                  else Inl (InvalidEscapeSequence (line l1) (column l1)))
            else if \<not> IsArgumentChar U r then Inr (tok\<lparr>Value := buf\<rparr>, l)
            else scanSimpleArgument_loop U tok (snd (advance l)) (buf @ [r]))
      else Inr (tok\<lparr>Value := buf\<rparr>, l))"
  by pat_completeness auto
termination
  by (relation "measure (\<lambda>(U, tok, l, buf). length (input l) - pos l)")
     (auto simp: advance_def)

definition scanSimpleArgument :: "unicode_tables \<Rightarrow> Lexer \<Rightarrow> error + Token \<times> Lexer" where
  "scanSimpleArgument U l = scanSimpleArgument_loop U (makeToken l TokenArgument []) l []"

function scanSingleQuoted_loop ::
  "unicode_tables \<Rightarrow> Token \<Rightarrow> Lexer \<Rightarrow> gostring \<Rightarrow> error + Token \<times> Lexer" where
  "scanSingleQuoted_loop U tok l buf =
     (if pos l < length (input l)
      then (let r = peek l in
            if r = 0x22 then Inr (tok\<lparr>Value := buf\<rparr>, snd (advance l))
            else if r = 0x5C
            then (let l1 = snd (advance l); next = peek l1 in
                  if IsLineTerminator next
                  then scanSingleQuoted_loop U tok (consumeTerminator l1) buf
                  else if \<not> IsWhitespace next \<and> \<not> IsLineTerminator next \<and> \<not> IsForbidden U next
                  then scanSingleQuoted_loop U tok (snd (advance l1)) (buf @ [next])
                  else Inl (InvalidEscapeQuoted (line l1)))
            else if IsLineTerminator r then Inl (UnexpectedNewlineQuoted (line l))
            else if IsForbidden U r then Inl (ForbiddenInString (line l))
            else scanSingleQuoted_loop U tok (snd (advance l)) (buf @ [r]))
      else Inl (UnterminatedQuoted (line l)))"
  by pat_completeness auto
termination
  by (relation "measure (\<lambda>(U, tok, l, buf). length (input l) - pos l)")
     (auto simp: advance_def consumeTerminator_def Let_def split: prod.splits if_splits)

definition scanSingleQuoted :: "unicode_tables \<Rightarrow> Lexer \<Rightarrow> error + Token \<times> Lexer" where
  "scanSingleQuoted U l = scanSingleQuoted_loop U (makeToken l TokenArgument []) l []"

function scanTripleQuoted_loop ::
  "unicode_tables \<Rightarrow> Token \<Rightarrow> Lexer \<Rightarrow> gostring \<Rightarrow> error + Token \<times> Lexer" where
  "scanTripleQuoted_loop U tok l buf =
     (if pos l < length (input l)
      then (let r = peek l in
            if r = 0x22 \<and> pos l + 2 < length (input l)
               \<and> input l ! (pos l + 1) = 0x22 \<and> input l ! (pos l + 2) = 0x22
            then Inr (tok\<lparr>Value := buf\<rparr>, snd (advance (snd (advance (snd (advance l))))))
            else if r = 0x5C
            then (let l1 = snd (advance l); next = peek l1 in
                  if \<not> IsWhitespace next \<and> \<not> IsLineTerminator next \<and> \<not> IsForbidden U next
                  then scanTripleQuoted_loop U tok (snd (advance l1)) (buf @ [next])
                  else Inl (InvalidEscapeTriple (line l1)))
            else if IsForbidden U r then Inl (ForbiddenInString (line l))
            else scanTripleQuoted_loop U tok (snd (advance l)) (buf @ [r]))
      else Inl (UnterminatedTriple (line l)))"
  by pat_completeness auto
termination
  by (relation "measure (\<lambda>(U, tok, l, buf). length (input l) - pos l)")
     (auto simp: advance_def)

definition scanTripleQuoted :: "unicode_tables \<Rightarrow> Lexer \<Rightarrow> error + Token \<times> Lexer" where
  "scanTripleQuoted U l = scanTripleQuoted_loop U (makeToken l TokenArgument []) l []"

definition scanQuotedArgument :: "unicode_tables \<Rightarrow> Lexer \<Rightarrow> error + Token \<times> Lexer" where
  "scanQuotedArgument U l =
     (let tok = makeToken l TokenArgument [];
          l1 = snd (advance l)
      in if peek l1 = 0x22
         then (let l2 = snd (advance l1) in
               if peek l2 = 0x22 then scanTripleQuoted U (snd (advance l2))
               else Inr (tok\<lparr>Value := []\<rparr>, l2))
         else scanSingleQuoted U l1)"

definition NextToken :: "unicode_tables \<Rightarrow> Lexer \<Rightarrow> error + Token \<times> Lexer" where
  "NextToken U l0 =
     (if pos l0 = 0 \<and> \<not> ValidateUTF8 (input l0) then Inl MalformedUTF8
      else
        (let lb = (if pos l0 = 0 \<and> take 1 (input l0) = [0xFEFF] then l0\<lparr>pos := 1\<rparr> else l0);
             l = skipWhitespace lb
         in if pos l \<ge> length (input l) then Inr (makeToken l TokenEOF [], l)
            else (let r = peek l in
              if r = 0x1A
              then (if pos l + 1 < length (input l)
                    then Inl (ForbiddenCharacter (line l) (column l))
                    else Inr (makeToken l TokenEOF [], l))
              else if IsForbidden U r then Inl (ForbiddenCharacter (line l) (column l))
              else if IsLineTerminator r then scanNewline l
              else if r = 0x23 then scanComment U l
              else if r = 0x3B then Inr (makeToken l TokenSemicolon [0x3B], snd (advance l))
              else if r = 0x7B then Inr (makeToken l TokenLeftBrace [0x7B], snd (advance l))
              else if r = 0x7D then Inr (makeToken l TokenRightBrace [0x7D], snd (advance l))
              else if r = 0x22 then scanQuotedArgument U l
              else if IsArgumentChar U r then scanSimpleArgument U l
              else Inl (UnexpectedCharacter r (line l) (column l)))))"


section \<open>Progress of the lexer\<close>

text \<open>
  No scanning operation changes the input or moves the cursor backwards or past the end,
  and every token other than end-of-input moves the cursor forward.
\<close>


declare skipWhitespace.simps [simp del] scanComment_loop.simps [simp del]
  scanSimpleArgument_loop.simps [simp del] scanSingleQuoted_loop.simps [simp del]
  scanTripleQuoted_loop.simps [simp del]

definition lex_le :: "Lexer \<Rightarrow> Lexer \<Rightarrow> bool" where
  "lex_le l l' = (input l' = input l \<and> pos l \<le> pos l'
     \<and> (pos l \<le> length (input l) \<longrightarrow> pos l' \<le> length (input l)))"

lemma lex_le_refl [simp]: "lex_le l l" by (simp add: lex_le_def)

lemma lex_le_trans: "lex_le a b \<Longrightarrow> lex_le b c \<Longrightarrow> lex_le a c"
  by (auto simp: lex_le_def)

lemma advance_le [simp]: "lex_le l (snd (advance l))"
  by (simp add: lex_le_def advance_def)

lemma advance_pos: "pos l < length (input l) \<Longrightarrow> pos (snd (advance l)) = pos l + 1"
  by (simp add: advance_def)

lemma advance_mono: "pos l \<le> pos (snd (advance l))"
  by (simp add: advance_def)

lemma advance_input [simp]: "input (snd (advance l)) = input l"
  by (simp add: advance_def)

lemma skipWhitespace_le: "lex_le l (skipWhitespace l)"
proof (induction l rule: skipWhitespace.induct)
  case (1 l)
  show ?case
    apply (subst skipWhitespace.simps)
    using 1 by (auto intro: lex_le_trans [OF advance_le])
qed

lemma consumeTerminator_le: "lex_le l (consumeTerminator l)"
  by (auto simp: consumeTerminator_def lex_le_def advance_def Let_def split: prod.splits)

lemma consumeTerminator_pos: "pos l < length (input l) \<Longrightarrow> pos l < pos (consumeTerminator l)"
  by (auto simp: consumeTerminator_def advance_def Let_def split: prod.splits)

lemma scanComment_loop_le: "scanComment_loop U l = Inr l' \<Longrightarrow> lex_le l l'"
proof (induction U l rule: scanComment_loop.induct)
  case (1 U l)
  from "1.prems" show ?case
    apply (subst (asm) scanComment_loop.simps)
    using "1.IH" by (auto simp: Let_def split: if_splits intro: lex_le_trans [OF advance_le])
qed

lemma scanSimpleArgument_loop_le:
  "scanSimpleArgument_loop U tok l buf = Inr (t, l') \<Longrightarrow> lex_le l l'"
proof (induction U tok l buf rule: scanSimpleArgument_loop.induct)
  case (1 U tok l buf)
  from "1.prems" show ?case
    apply (subst (asm) scanSimpleArgument_loop.simps)
    using "1.IH"
    by (auto simp: Let_def split: if_splits
        intro: lex_le_trans [OF advance_le] lex_le_trans [OF advance_le lex_le_trans [OF advance_le]]
         lex_le_trans [OF advance_le lex_le_trans [OF consumeTerminator_le skipWhitespace_le]])
qed


lemma scanSingleQuoted_loop_le:
  "scanSingleQuoted_loop U tok l buf = Inr (t, l') \<Longrightarrow> lex_le l l'"
proof (induction U tok l buf rule: scanSingleQuoted_loop.induct)
  case (1 U tok l buf)
  from "1.prems" show ?case
    apply (subst (asm) scanSingleQuoted_loop.simps)
    using "1.IH"
    by (auto simp: Let_def split: if_splits
        intro: lex_le_trans [OF advance_le] lex_le_trans [OF advance_le lex_le_trans [OF advance_le]]
         lex_le_trans [OF advance_le lex_le_trans [OF consumeTerminator_le]])
qed

lemma scanSingleQuoted_loop_lt:
  "scanSingleQuoted_loop U tok l buf = Inr (t, l') \<Longrightarrow> pos l < pos l'"
  apply (subst (asm) scanSingleQuoted_loop.simps)
  using advance_mono [of "snd (advance l)"] advance_pos [of l]
    consumeTerminator_le [of "snd (advance l)"]
  by (auto simp: Let_def lex_le_def split: if_splits dest!: scanSingleQuoted_loop_le)

lemma scanTripleQuoted_loop_le:
  "scanTripleQuoted_loop U tok l buf = Inr (t, l') \<Longrightarrow> lex_le l l'"
proof (induction U tok l buf rule: scanTripleQuoted_loop.induct)
  case (1 U tok l buf)
  from "1.prems" show ?case
    apply (subst (asm) scanTripleQuoted_loop.simps)
    using "1.IH"
    by (auto simp: Let_def split: if_splits
        intro: lex_le_trans [OF advance_le] lex_le_trans [OF advance_le lex_le_trans [OF advance_le]]
         lex_le_trans [OF advance_le lex_le_trans [OF advance_le lex_le_trans [OF advance_le]]])
qed

lemma scanTripleQuoted_loop_lt:
  "scanTripleQuoted_loop U tok l buf = Inr (t, l') \<Longrightarrow> pos l < pos l'"
  apply (subst (asm) scanTripleQuoted_loop.simps)
  using advance_mono [of "snd (advance l)"] advance_pos [of l]
    advance_mono [of "snd (advance (snd (advance l)))"]
  by (auto simp: Let_def lex_le_def split: if_splits dest!: scanTripleQuoted_loop_le)

lemma scanSimpleArgument_loop_lt:
  "scanSimpleArgument_loop U tok l buf = Inr (t, l') \<Longrightarrow> pos l < length (input l) \<Longrightarrow>
   peek l = 0x5C \<or> IsArgumentChar U (peek l) \<Longrightarrow> pos l < pos l'"
  apply (subst (asm) scanSimpleArgument_loop.simps)
  using lex_le_trans [OF consumeTerminator_le skipWhitespace_le, of "snd (advance l)"]
    advance_mono [of "snd (advance l)"] advance_pos [of l]
  by (auto simp: Let_def lex_le_def split: if_splits dest!: scanSimpleArgument_loop_le)

lemma backslash_arg: "IsArgumentChar U 0x5C"
  by (simp add: IsArgumentChar_def IsWhitespace_def IsLineTerminator_def IsReservedPunctuator_def
      IsForbidden_def unicode_White_Space_def unicode_Cf_def unicode_Cc_def unicode_Cs_def
      unicode_Co_def unicode_IsPrint_def)


lemma advance_fst [simp]: "fst (advance l) = peek l"
  by (simp add: advance_def peek_def)

lemma scanNewline_le: "scanNewline l = Inr (t, l') \<Longrightarrow> lex_le l l'"
  using advance_le [of l] advance_le [of "snd (advance l)"]
  by (auto simp: scanNewline_def Let_def lex_le_def case_prod_beta split: if_splits)

lemma scanNewline_lt: "scanNewline l = Inr (t, l') \<Longrightarrow> pos l < length (input l) \<Longrightarrow> pos l < pos l'"
  using advance_pos [of l] advance_mono [of "snd (advance l)"]
  by (auto simp: scanNewline_def Let_def case_prod_beta split: if_splits)

lemma scanComment_le: "scanComment U l = Inr (t, l') \<Longrightarrow> lex_le l l'"
  by (auto simp: scanComment_def Let_def split: sum.splits
      dest!: scanComment_loop_le intro: lex_le_trans [OF advance_le])

lemma scanComment_lt: "scanComment U l = Inr (t, l') \<Longrightarrow> pos l < length (input l) \<Longrightarrow> pos l < pos l'"
  using advance_pos [of l]
  by (auto simp: scanComment_def Let_def lex_le_def split: sum.splits dest!: scanComment_loop_le)

lemma scanQuotedArgument_le: "scanQuotedArgument U l = Inr (t, l') \<Longrightarrow> lex_le l l'"
  by (auto simp: scanQuotedArgument_def scanSingleQuoted_def scanTripleQuoted_def Let_def
      split: if_splits dest!: scanSingleQuoted_loop_le scanTripleQuoted_loop_le
      intro: lex_le_trans [OF advance_le] lex_le_trans [OF advance_le lex_le_trans [OF advance_le]]
         lex_le_trans [OF advance_le lex_le_trans [OF advance_le lex_le_trans [OF advance_le]]])

lemma scanQuotedArgument_lt:
  "scanQuotedArgument U l = Inr (t, l') \<Longrightarrow> pos l < length (input l) \<Longrightarrow> pos l < pos l'"
  using advance_pos [of l] advance_mono [of "snd (advance l)"]
    advance_mono [of "snd (advance (snd (advance l)))"]
  by (auto simp: scanQuotedArgument_def scanSingleQuoted_def scanTripleQuoted_def Let_def
      split: if_splits dest!: scanSingleQuoted_loop_lt scanTripleQuoted_loop_lt)

definition skipBOM :: "Lexer \<Rightarrow> Lexer" where
  "skipBOM l0 = (if pos l0 = 0 \<and> take 1 (input l0) = [0xFEFF] then l0\<lparr>pos := 1\<rparr> else l0)"

lemma skipBOM_le: "lex_le l (skipBOM l)"
  by (cases "input l") (auto simp: skipBOM_def lex_le_def)

lemma NextToken_le: "NextToken U l = Inr (t, l') \<Longrightarrow> lex_le l l'"
  using lex_le_trans [OF skipBOM_le skipWhitespace_le, of l]
  unfolding NextToken_def skipBOM_def [symmetric] Let_def scanSimpleArgument_def
  by (auto split: if_splits
      dest!: scanNewline_le scanComment_le scanQuotedArgument_le scanSimpleArgument_loop_le
      intro: lex_le_trans lex_le_trans [OF _ advance_le])

lemma NextToken_lt:
  assumes "NextToken U l = Inr (t, l')" "Type t \<noteq> TokenEOF"
  shows "pos l < pos l' \<and> pos l' \<le> length (input l)"
proof -
  define m where "m = skipWhitespace (skipBOM l)"
  have lm: "lex_le l m"
    unfolding m_def by (rule lex_le_trans [OF skipBOM_le skipWhitespace_le])
  have nt: "pos m < length (input m)"
    using assms unfolding NextToken_def skipBOM_def [symmetric] Let_def m_def [symmetric]
    by (auto simp: makeToken_def split: if_splits)
  have "pos m < pos l' \<and> lex_le m l'"
    using assms nt advance_pos [of m] backslash_arg [of U]
    unfolding NextToken_def skipBOM_def [symmetric] Let_def m_def [symmetric] scanSimpleArgument_def
    by (auto simp: makeToken_def split: if_splits
        dest: scanNewline_le scanComment_le scanQuotedArgument_le scanSimpleArgument_loop_le
          scanNewline_lt scanComment_lt scanQuotedArgument_lt scanSimpleArgument_loop_lt)
  with lm nt show ?thesis by (auto simp: lex_le_def)
qed


section \<open>Parser (parser.go)\<close>

record Parser =
  lexer :: Lexer
  current :: Token

function Parser_advance :: "unicode_tables \<Rightarrow> Parser \<Rightarrow> error + Parser" where
  "Parser_advance U p =
     (case NextToken U (lexer p) of
        Inl e \<Rightarrow> Inl e
      | Inr (tok, l') \<Rightarrow>
          if Type tok = TokenComment then Parser_advance U (p\<lparr>lexer := l'\<rparr>)
          else Inr (p\<lparr>lexer := l', current := tok\<rparr>))"
  by pat_completeness auto
termination
proof (relation "measure (\<lambda>(U, p). length (input (lexer p)) - pos (lexer p))", goal_cases)
  case 1
  show ?case by simp
next
  case (2 U p x2 tok l')
  then have "NextToken U (lexer p) = Inr (tok, l')" "Type tok \<noteq> TokenEOF" by auto
  from NextToken_lt [OF this] NextToken_le [OF this(1)] show ?case
    by (auto simp: lex_le_def)
qed

declare Parser_advance.simps [simp del]

definition NewParser :: "unicode_tables \<Rightarrow> gostring \<Rightarrow> error + Parser" where
  "NewParser U s =
     Parser_advance U \<lparr>lexer = NewLexer s,
                        current = \<lparr>Type = TokenEOF, Value = [], Line = 0, Column = 0\<rparr>\<rparr>"

text \<open>
  What is left to read: the characters after the cursor, and the current token unless it is
  end-of-input.
\<close>

definition remaining :: "Parser \<Rightarrow> nat" where
  "remaining p = (length (input (lexer p)) - pos (lexer p))
                 + (if Type (current p) = TokenEOF then 0 else 1)"


lemma Parser_advance_le:
  "Parser_advance U p = Inr p' \<Longrightarrow>
   lex_le (lexer p) (lexer p') \<and>
   (Type (current p') \<noteq> TokenEOF \<longrightarrow>
      pos (lexer p) < pos (lexer p') \<and> pos (lexer p') \<le> length (input (lexer p)))"
proof (induction U p rule: Parser_advance.induct)
  case (1 U p)
  show ?case
  proof (cases "NextToken U (lexer p)")
    case (Inl e)
    with "1.prems" show ?thesis by (subst (asm) Parser_advance.simps) simp
  next
    case (Inr r)
    obtain tok l' where r: "r = (tok, l')" by (cases r)
    note nt = Inr [unfolded r]
    show ?thesis
    proof (cases "Type tok = TokenComment")
      case True
      with "1.prems" nt have rec: "Parser_advance U (p\<lparr>lexer := l'\<rparr>) = Inr p'"
        by (subst (asm) Parser_advance.simps) simp
      from "1.IH" [OF nt refl True rec] NextToken_le [OF nt] show ?thesis
        by (auto simp: lex_le_def)
    next
      case False
      with "1.prems" nt have "p' = p\<lparr>lexer := l', current := tok\<rparr>"
        by (subst (asm) Parser_advance.simps) simp
      with NextToken_le [OF nt] NextToken_lt [OF nt] show ?thesis by auto
    qed
  qed
qed

lemma Parser_advance_remaining:
  "Parser_advance U p = Inr p' \<Longrightarrow> Type (current p) \<noteq> TokenEOF \<Longrightarrow> remaining p' < remaining p"
  by (drule Parser_advance_le) (auto simp: remaining_def lex_le_def)

lemma Parser_advance_input:
  "Parser_advance U p = Inr p' \<Longrightarrow> input (lexer p') = input (lexer p)"
  by (drule Parser_advance_le) (auto simp: lex_le_def)

function parseArguments_loop ::
  "unicode_tables \<Rightarrow> Parser \<Rightarrow> gostring list \<Rightarrow> error + gostring list \<times> Parser" where
  "parseArguments_loop U p args =
     (if Type (current p) = TokenArgument \<or> Type (current p) = TokenLineContinuation
      then (if Type (current p) = TokenLineContinuation
            then (case Parser_advance U p of
                    Inl e \<Rightarrow> Inl e
                  | Inr p' \<Rightarrow> parseArguments_loop U p' args)
            else (case Parser_advance U p of
                    Inl e \<Rightarrow> Inl e
                  | Inr p' \<Rightarrow> parseArguments_loop U p' (args @ [Value (current p)])))
      else Inr (args, p))"
  by pat_completeness auto
termination
  by (relation "measure (\<lambda>(U, p, args). remaining p)")
     (auto dest: Parser_advance_remaining)

definition parseArguments :: "unicode_tables \<Rightarrow> Parser \<Rightarrow> error + gostring list \<times> Parser" where
  "parseArguments U p = parseArguments_loop U p []"

text \<open>The loop of \<^verbatim>\<open>parseDirective\<close> that skips newlines to look for a block.\<close>

function skipNewlines :: "unicode_tables \<Rightarrow> Parser \<Rightarrow> error + Parser" where
  "skipNewlines U p =
     (if Type (current p) = TokenNewline
      then (case Parser_advance U p of
              Inl e \<Rightarrow> Inl e
            | Inr p' \<Rightarrow> skipNewlines U p')
      else Inr p)"
  by pat_completeness auto
termination
  by (relation "measure (\<lambda>(U, p). remaining p)")
     (auto dest: Parser_advance_remaining)

text \<open>
  \<^verbatim>\<open>parseDirectives\<close>, \<^verbatim>\<open>parseDirective\<close> and \<^verbatim>\<open>parseBlock\<close> call each
  other; each call spends one unit of the first argument, and \<open>None\<close> is returned
  when it runs out.
\<close>

fun parseDirectives ::
    "nat \<Rightarrow> unicode_tables \<Rightarrow> bool \<Rightarrow> Parser \<Rightarrow> Directive list \<Rightarrow>
     (error + Directive list \<times> Parser) option"
  and parseDirective ::
    "nat \<Rightarrow> unicode_tables \<Rightarrow> Parser \<Rightarrow> (error + Directive \<times> Parser) option"
  and parseBlock ::
    "nat \<Rightarrow> unicode_tables \<Rightarrow> Parser \<Rightarrow> (error + Directive list \<times> Parser) option"
where
  "parseDirectives 0 U insideBlock p directives = None"
| "parseDirectives (Suc n) U insideBlock p directives =
     (if Type (current p) = TokenNewline
      then (case Parser_advance U p of
              Inl e \<Rightarrow> Some (Inl e)
            | Inr p' \<Rightarrow> parseDirectives n U insideBlock p' directives)
      else if Type (current p) = TokenEOF then Some (Inr (directives, p))
      else if Type (current p) = TokenRightBrace
      then (if insideBlock then Some (Inr (directives, p))
            else Some (Inl (UnmatchedRightBrace (Line (current p)))))
      else (case parseDirective n U p of
              None \<Rightarrow> None
            | Some (Inl e) \<Rightarrow> Some (Inl e)
            | Some (Inr (directive, p')) \<Rightarrow>
                parseDirectives n U insideBlock p' (directives @ [directive])))"
| "parseDirective 0 U p = None"
| "parseDirective (Suc n) U p =
     (case parseArguments U p of
        Inl e \<Rightarrow> Some (Inl e)
      | Inr (args, p1) \<Rightarrow>
          if length args = 0 then Some (Inl (NoArguments (Line (current p1))))
          else
            (let hasNewlines = (Type (current p1) = TokenNewline) in
             case skipNewlines U p1 of
               Inl e \<Rightarrow> Some (Inl e)
             | Inr p2 \<Rightarrow>
                 if Type (current p2) = TokenLeftBrace
                 then (case parseBlock n U p2 of
                         None \<Rightarrow> None
                       | Some (Inl e) \<Rightarrow> Some (Inl e)
                       | Some (Inr (subdirs, p3)) \<Rightarrow>
                           if Type (current p3) = TokenSemicolon
                           then (case Parser_advance U p3 of
                                   Inl e \<Rightarrow> Some (Inl e)
                                 | Inr p4 \<Rightarrow> Some (Inr (Directive args subdirs, p4)))
                           else Some (Inr (Directive args subdirs, p3)))
                 else if hasNewlines then Some (Inr (Directive args [], p2))
                 else if Type (current p2) = TokenSemicolon
                 then (case Parser_advance U p2 of
                         Inl e \<Rightarrow> Some (Inl e)
                       | Inr p3 \<Rightarrow> Some (Inr (Directive args [], p3)))
                 else if Type (current p2) = TokenRightBrace \<or> Type (current p2) = TokenEOF
                 then Some (Inr (Directive args [], p2))
                 else Some (Inl (ExpectedTerminator (Line (current p2)) (Type (current p2))))))"
| "parseBlock 0 U p = None"
| "parseBlock (Suc n) U p =
     (if Type (current p) \<noteq> TokenLeftBrace
      then Some (Inl (ExpectedLeftBrace (Line (current p)) (Type (current p))))
      else (case Parser_advance U p of
              Inl e \<Rightarrow> Some (Inl e)
            | Inr p1 \<Rightarrow>
                (case parseDirectives n U True p1 [] of
                   None \<Rightarrow> None
                 | Some (Inl e) \<Rightarrow> Some (Inl e)
                 | Some (Inr (subdirs, p2)) \<Rightarrow>
                     if Type (current p2) \<noteq> TokenRightBrace
                     then Some (Inl (ExpectedRightBrace (Line (current p2)) (Type (current p2))))
                     else (case Parser_advance U p2 of
                             Inl e \<Rightarrow> Some (Inl e)
                           | Inr p3 \<Rightarrow> Some (Inr (subdirs, p3))))))"

definition Parse :: "nat \<Rightarrow> unicode_tables \<Rightarrow> Parser \<Rightarrow> (error + ConfigurationUnit) option" where
  "Parse n U p =
     (case parseDirectives n U False p [] of
        None \<Rightarrow> None
      | Some (Inl e) \<Rightarrow> Some (Inl e)
      | Some (Inr (directives, p')) \<Rightarrow> Some (Inr (ConfigurationUnit directives)))"

text \<open>The entry point of the README: \<^verbatim>\<open>NewParser(text)\<close>, then \<^verbatim>\<open>Parse()\<close>.\<close>

definition parse_text ::
  "nat \<Rightarrow> unicode_tables \<Rightarrow> gostring \<Rightarrow> (error + ConfigurationUnit) option" where
  "parse_text n U s =
     (case NewParser U s of
        Inl e \<Rightarrow> Some (Inl e)
      | Inr p \<Rightarrow> Parse n U p)"

text \<open>An ASCII literal as a Go string.\<close>

definition str :: "string \<Rightarrow> gostring" where
  "str s = map of_char s"

text \<open>
  The tables with nothing above Latin-1, for running the model on concrete texts: on a text
  with no code point above U+00FF the result does not depend on the tables.
\<close>

definition Latin1 :: unicode_tables where
  "Latin1 = \<lparr>CfRanges = (\<lambda>r. False), PrintRanges = (\<lambda>r. False)\<rparr>"


section \<open>Termination of the parser\<close>


declare parseArguments_loop.simps [simp del] skipNewlines.simps [simp del]

lemma Parser_advance_remaining_le:
  "Parser_advance U p = Inr p' \<Longrightarrow> remaining p' \<le> remaining p + 1"
  by (drule Parser_advance_le) (auto simp: remaining_def lex_le_def)

lemma parseArguments_loop_remaining:
  "parseArguments_loop U p args = Inr (args', p') \<Longrightarrow>
   remaining p' \<le> remaining p \<and> (args' \<noteq> args \<longrightarrow> remaining p' < remaining p)"
proof (induction U p args rule: parseArguments_loop.induct)
  case (1 U p args)
  from "1.prems" show ?case
    apply (subst (asm) parseArguments_loop.simps)
    using "1.IH"
    by (fastforce split: if_splits sum.splits dest: Parser_advance_remaining)
qed

lemma skipNewlines_remaining:
  "skipNewlines U p = Inr p' \<Longrightarrow> remaining p' \<le> remaining p \<and> Type (current p') \<noteq> TokenNewline"
proof (induction U p rule: skipNewlines.induct)
  case (1 U p)
  from "1.prems" show ?case
    apply (subst (asm) skipNewlines.simps)
    using "1.IH"
    by (fastforce split: if_splits sum.splits dest: Parser_advance_remaining)
qed

lemma parseDirectives_SucE:
  assumes "parseDirectives (Suc n) U b p ds = Some (Inr (ds', p'))"
  obtains
    (newline) p1 where "Type (current p) = TokenNewline" "Parser_advance U p = Inr p1"
      "parseDirectives n U b p1 ds = Some (Inr (ds', p'))"
  | (eof) "Type (current p) = TokenEOF" "ds' = ds" "p' = p"
  | (rbrace) "Type (current p) = TokenRightBrace" "b" "ds' = ds" "p' = p"
  | (directive) d p1 where "Type (current p) \<noteq> TokenNewline" "Type (current p) \<noteq> TokenEOF"
      "Type (current p) \<noteq> TokenRightBrace" "parseDirective n U p = Some (Inr (d, p1))"
      "parseDirectives n U b p1 (ds @ [d]) = Some (Inr (ds', p'))"
  using assms
  by (simp split: if_splits sum.splits option.splits prod.splits)

lemma parseDirective_SucE:
  assumes "parseDirective (Suc n) U p = Some (Inr (d, p'))"
  obtains
    (block) args p1 p2 subdirs p3 where "parseArguments U p = Inr (args, p1)" "args \<noteq> []"
      "skipNewlines U p1 = Inr p2" "Type (current p2) = TokenLeftBrace"
      "parseBlock n U p2 = Some (Inr (subdirs, p3))" "d = Directive args subdirs"
      "Type (current p3) \<noteq> TokenSemicolon" "p' = p3"
  | (block_semi) args p1 p2 subdirs p3 where "parseArguments U p = Inr (args, p1)" "args \<noteq> []"
      "skipNewlines U p1 = Inr p2" "Type (current p2) = TokenLeftBrace"
      "parseBlock n U p2 = Some (Inr (subdirs, p3))" "d = Directive args subdirs"
      "Type (current p3) = TokenSemicolon" "Parser_advance U p3 = Inr p'"
  | (newlines) args p1 where "parseArguments U p = Inr (args, p1)" "args \<noteq> []"
      "skipNewlines U p1 = Inr p'" "Type (current p') \<noteq> TokenLeftBrace"
      "Type (current p1) = TokenNewline" "d = Directive args []"
  | (semi) args p1 where "parseArguments U p = Inr (args, p1)" "args \<noteq> []"
      "Type (current p1) = TokenSemicolon" "Parser_advance U p1 = Inr p'" "d = Directive args []"
  | (stop) args where "parseArguments U p = Inr (args, p')" "args \<noteq> []"
      "Type (current p') = TokenRightBrace \<or> Type (current p') = TokenEOF" "d = Directive args []"
  using assms
  apply (simp add: Let_def split: if_splits sum.splits option.splits prod.splits)
  apply (auto simp: skipNewlines.simps [of _ "p1" for p1])
  done

lemma parseBlock_SucE:
  assumes "parseBlock (Suc n) U p = Some (Inr (ds, p'))"
  obtains p1 p2 where "Type (current p) = TokenLeftBrace" "Parser_advance U p = Inr p1"
    "parseDirectives n U True p1 [] = Some (Inr (ds, p2))" "Type (current p2) = TokenRightBrace"
    "Parser_advance U p2 = Inr p'"
  using assms
  by (simp split: if_splits sum.splits option.splits prod.splits)


lemma parseArguments_remaining:
  "parseArguments U p = Inr (args, p') \<Longrightarrow> args \<noteq> [] \<Longrightarrow> remaining p' < remaining p"
  unfolding parseArguments_def by (auto dest: parseArguments_loop_remaining)

lemma parser_remaining:
  "(\<forall>U b p ds ds' p'. parseDirectives n U b p ds = Some (Inr (ds', p')) \<longrightarrow>
      remaining p' \<le> remaining p)
   \<and> (\<forall>U p d p'. parseDirective n U p = Some (Inr (d, p')) \<longrightarrow> remaining p' < remaining p)
   \<and> (\<forall>U p ds p'. parseBlock n U p = Some (Inr (ds, p')) \<longrightarrow> remaining p' < remaining p)"
proof (induction n)
  case 0
  show ?case by simp
next
  case (Suc n)
  have ds: "remaining p' \<le> remaining p"
    if "parseDirectives (Suc n) U b p ds = Some (Inr (ds', p'))" for U b p ds ds' p'
    using that
  proof (cases rule: parseDirectives_SucE)
    case (newline p1)
    with Suc Parser_advance_remaining [of U p p1] show ?thesis by fastforce
  next
    case (directive d p1)
    with Suc have "remaining p1 < remaining p" "remaining p' \<le> remaining p1" by blast+
    then show ?thesis by simp
  qed simp_all
  have d: "remaining p' < remaining p"
    if "parseDirective (Suc n) U p = Some (Inr (d, p'))" for U p d p'
    using that
  proof (cases rule: parseDirective_SucE)
    case (block args p1 p2 subdirs p3)
    with Suc have "remaining p3 < remaining p2" by blast
    with block parseArguments_remaining [of U p args p1] skipNewlines_remaining [of U p1 p2]
    show ?thesis by simp
  next
    case (block_semi args p1 p2 subdirs p3)
    with Suc have "remaining p3 < remaining p2" by blast
    with block_semi parseArguments_remaining [of U p args p1] skipNewlines_remaining [of U p1 p2]
      Parser_advance_remaining [of U p3 p']
    show ?thesis by simp
  next
    case (newlines args p1)
    with parseArguments_remaining [of U p args p1] skipNewlines_remaining [of U p1 p']
    show ?thesis by simp
  next
    case (semi args p1)
    with parseArguments_remaining [of U p args p1] Parser_advance_remaining [of U p1 p']
    show ?thesis by simp
  next
    case (stop args)
    with parseArguments_remaining [of U p args p'] show ?thesis by simp
  qed
  have b: "remaining p' < remaining p"
    if "parseBlock (Suc n) U p = Some (Inr (ds, p'))" for U p ds p'
    using that
  proof (cases rule: parseBlock_SucE)
    case (1 p1 p2)
    with Suc have "remaining p2 \<le> remaining p1" by blast
    with 1 Parser_advance_remaining [of U p p1] Parser_advance_remaining [of U p2 p']
    show ?thesis by simp
  qed
  from ds d b show ?case by blast
qed

lemmas parseDirectives_remaining = parser_remaining [THEN conjunct1, rule_format]
lemmas parseDirective_remaining = parser_remaining [THEN conjunct2, THEN conjunct1, rule_format]
lemmas parseBlock_remaining = parser_remaining [THEN conjunct2, THEN conjunct2, rule_format]

text \<open>Enough fuel: twice what is left to read, and one.\<close>

lemma parser_enough_fuel:
  "(\<forall>U b p ds. 2 * remaining p + 1 \<le> n \<longrightarrow> parseDirectives n U b p ds \<noteq> None)
   \<and> (\<forall>U p. 2 * remaining p \<le> n \<and> 1 \<le> n \<longrightarrow> parseDirective n U p \<noteq> None)
   \<and> (\<forall>U p. 2 * remaining p + 1 \<le> n \<longrightarrow> parseBlock n U p \<noteq> None)"
proof (induction n)
  case 0
  show ?case by simp
next
  case (Suc n)
  have ds: "parseDirectives (Suc n) U b p ds \<noteq> None" if f: "2 * remaining p + 1 \<le> Suc n"
    for U b p ds
  proof (cases "Type (current p) = TokenNewline")
    case True
    show ?thesis
    proof (cases "Parser_advance U p")
      case (Inl e)
      with True show ?thesis by simp
    next
      case (Inr p1)
      with True Parser_advance_remaining [of U p p1] f
      have "2 * remaining p1 + 1 \<le> n" by simp
      with Suc have "parseDirectives n U b p1 ds \<noteq> None" by blast
      with True Inr show ?thesis by simp
    qed
  next
    case nl: False
    show ?thesis
    proof (cases "Type (current p) = TokenEOF \<or> Type (current p) = TokenRightBrace")
      case True
      with nl show ?thesis by auto
    next
      case False
      then have "remaining p \<ge> 1" by (simp add: remaining_def)
      with f have f': "2 * remaining p \<le> n" "1 \<le> n" by simp_all
      with Suc have pd: "parseDirective n U p \<noteq> None" by blast
      show ?thesis
      proof (cases "parseDirective n U p")
        case None
        with pd show ?thesis by simp
      next
        case (Some r)
        show ?thesis
        proof (cases r)
          case (Inl e)
          with Some nl False show ?thesis by simp
        next
          case (Inr dp)
          obtain d p1 where dp: "dp = (d, p1)" by (cases dp)
          from Some Inr dp parseDirective_remaining [of n U p d p1] f'
          have "2 * remaining p1 + 1 \<le> n" by simp
          with Suc have "parseDirectives n U b p1 (ds @ [d]) \<noteq> None" by blast
          with Some Inr dp nl False show ?thesis by simp
        qed
      qed
    qed
  qed
  have bl: "parseBlock (Suc n) U p \<noteq> None" if f: "2 * remaining p + 1 \<le> Suc n" for U p
  proof (cases "Type (current p) = TokenLeftBrace")
    case False
    then show ?thesis by simp
  next
    case lb: True
    show ?thesis
    proof (cases "Parser_advance U p")
      case (Inl e)
      with lb show ?thesis by simp
    next
      case (Inr p1)
      with lb Parser_advance_remaining [of U p p1] f
      have "2 * remaining p1 + 1 \<le> n" by simp
      with Suc have "parseDirectives n U True p1 [] \<noteq> None" by blast
      with lb Inr show ?thesis
        by (auto split: sum.splits option.splits prod.splits)
    qed
  qed
  have d: "parseDirective (Suc n) U p \<noteq> None" if f: "2 * remaining p \<le> Suc n" for U p
  proof (cases "parseArguments U p")
    case (Inl e)
    then show ?thesis by simp
  next
    case (Inr ap)
    obtain args p1 where ap: "ap = (args, p1)" by (cases ap)
    show ?thesis
    proof (cases "args = []")
      case True
      with Inr ap show ?thesis by simp
    next
      case ne: False
      with Inr ap have r1: "remaining p1 < remaining p" by (auto dest: parseArguments_remaining)
      show ?thesis
      proof (cases "skipNewlines U p1")
        case (Inl e)
        with Inr ap ne show ?thesis by (simp add: Let_def)
      next
        case sn: (Inr p2)
        with r1 skipNewlines_remaining [of U p1 p2] f have "2 * remaining p2 + 1 \<le> n" by simp
        with Suc have "parseBlock n U p2 \<noteq> None" by blast
        with Inr ap ne sn show ?thesis
          by (auto simp: Let_def split: sum.splits option.splits prod.splits)
      qed
    qed
  qed
  from ds d bl show ?case by blast
qed


text \<open>
  The parse of a text, with the fuel that \<open>parser_enough_fuel\<close> shows to be enough:
  after the first token is loaded, at most \<open>length s\<close> is left to read.
\<close>

definition parse :: "unicode_tables \<Rightarrow> gostring \<Rightarrow> (error + ConfigurationUnit) option" where
  "parse U s = parse_text (2 * length s + 1) U s"


lemma NewParser_remaining: "NewParser U s = Inr p \<Longrightarrow> remaining p \<le> length s"
  unfolding NewParser_def
  by (drule Parser_advance_le) (auto simp: remaining_def lex_le_def NewLexer_def)

lemma parse_text_enough_fuel: "2 * length s + 1 \<le> n \<Longrightarrow> parse_text n U s \<noteq> None"
proof (cases "NewParser U s")
  case (Inl e)
  then show ?thesis by (simp add: parse_text_def)
next
  case (Inr p)
  assume "2 * length s + 1 \<le> n"
  with NewParser_remaining [OF Inr] have "2 * remaining p + 1 \<le> n" by simp
  with parser_enough_fuel [of n] have "parseDirectives n U False p [] \<noteq> None" by blast
  with Inr show ?thesis
    by (auto simp: parse_text_def Parse_def split: sum.splits option.splits prod.splits)
qed

lemmas lexer_defs = NewLexer_def peek_def advance_def makeToken_def scanNewline_def
  scanComment_def consumeTerminator_def scanSimpleArgument_def scanSingleQuoted_def
  scanTripleQuoted_def scanQuotedArgument_def NextToken_def ValidateUTF8_def

lemmas char_defs = unicode_White_Space_def unicode_Cc_def unicode_Cs_def unicode_Co_def
  unicode_Cf_def unicode_IsControl_def unicode_IsSpace_def unicode_IsPrint_def
  IsLineTerminator_def IsWhitespace_def IsForbidden_def IsReservedPunctuator_def
  IsArgumentChar_def

lemmas lexer_loops = skipWhitespace.simps scanComment_loop.simps scanSimpleArgument_loop.simps
  scanSingleQuoted_loop.simps scanTripleQuoted_loop.simps

lemmas parser_loops = Parser_advance.simps parseArguments_loop.simps skipNewlines.simps

lemmas parser_defs = NewParser_def parseArguments_def Parse_def parse_text_def parse_def

text \<open>Running the model on a concrete text: every definition and every loop unfolded.\<close>

lemmas run = str_def parser_defs parser_loops lexer_defs lexer_loops char_defs Let_def
  eval_nat_numeral

text \<open>
  C9. Every call of \<open>NextToken\<close> returns an error, or the end-of-input token, or a token
  after moving the cursor forward by at least one character, the input unchanged and the
  cursor within it; and the parse of a text \<open>s\<close> returns a result within the fuel
  \<open>2 * length s + 1\<close>, and within any larger one.
\<close>

theorem parse_terminates:
  "(\<forall>tok l'. NextToken U l = Inr (tok, l') \<longrightarrow>
       input l' = input l \<and>
       (Type tok = TokenEOF \<or> (pos l < pos l' \<and> pos l' \<le> length (input l))))
   \<and> (\<exists>r. parse U s = Some r)
   \<and> (\<forall>n. 2 * length s + 1 \<le> n \<longrightarrow> (\<exists>r. parse_text n U s = Some r))"
proof (intro conjI allI impI)
  fix tok l'
  assume nt: "NextToken U l = Inr (tok, l')"
  from NextToken_le [OF nt] show "input l' = input l" by (simp add: lex_le_def)
  from NextToken_lt [OF nt]
  show "Type tok = TokenEOF \<or> (pos l < pos l' \<and> pos l' \<le> length (input l))" by blast
next
  from parse_text_enough_fuel [of s "2 * length s + 1" U]
  show "\<exists>r. parse U s = Some r" by (auto simp: parse_def)
next
  fix n
  assume "2 * length s + 1 \<le> n"
  from parse_text_enough_fuel [OF this, of U] show "\<exists>r. parse_text n U s = Some r" by auto
qed

theorem parse_terminates_witness:
  "NextToken Latin1 (NewLexer (str ''ab c'')) =
     Inr (\<lparr>Type = TokenArgument, Value = str ''ab'', Line = 1, Column = 1\<rparr>,
          \<lparr>input = str ''ab c'', pos = 2, line = 1, column = 3\<rparr>)
   \<and> pos (NewLexer (str ''ab c'')) < pos \<lparr>input = str ''ab c'', pos = 2, line = 1, column = 3\<rparr>
   \<and> (\<exists>r. parse_text 9 Latin1 (str ''ab c'') = Some r)"
proof -
  have nt: "NextToken Latin1 (NewLexer (str ''ab c'')) =
     Inr (\<lparr>Type = TokenArgument, Value = str ''ab'', Line = 1, Column = 1\<rparr>,
          \<lparr>input = str ''ab c'', pos = 2, line = 1, column = 3\<rparr>)"
    by (simp add: run)
  have le: "2 * length (str ''ab c'') + 1 \<le> (9::nat)" by (simp add: str_def)
  note t = parse_terminates [of Latin1 "NewLexer (str ''ab c'')" "str ''ab c''"]
  from t [THEN conjunct1, rule_format, OF nt]
  have "pos (NewLexer (str ''ab c'')) < pos \<lparr>input = str ''ab c'', pos = 2, line = 1, column = 3\<rparr>"
    by simp
  moreover from t [THEN conjunct2, THEN conjunct2, rule_format, OF le]
  have "\<exists>r. parse_text 9 Latin1 (str ''ab c'') = Some r" .
  ultimately show ?thesis using nt by blast
qed

fun has_arguments :: "Directive \<Rightarrow> bool" where
  "has_arguments (Directive args subdirs) = (args \<noteq> [] \<and> list_all has_arguments subdirs)"

lemma parser_has_arguments:
  "(\<forall>U b p ds ds' p'. parseDirectives n U b p ds = Some (Inr (ds', p')) \<longrightarrow>
      list_all has_arguments ds \<longrightarrow> list_all has_arguments ds')
   \<and> (\<forall>U p d p'. parseDirective n U p = Some (Inr (d, p')) \<longrightarrow> has_arguments d)
   \<and> (\<forall>U p ds p'. parseBlock n U p = Some (Inr (ds, p')) \<longrightarrow> list_all has_arguments ds)"
proof (induction n)
  case 0
  show ?case by simp
next
  case (Suc n)
  have ds: "list_all has_arguments ds'"
    if "parseDirectives (Suc n) U b p ds = Some (Inr (ds', p'))" "list_all has_arguments ds"
    for U b p ds ds' p'
    using that(1)
  proof (cases rule: parseDirectives_SucE)
    case (newline p1)
    with Suc that(2) show ?thesis by blast
  next
    case (directive d p1)
    with Suc have "has_arguments d" by blast
    with that(2) have "list_all has_arguments (ds @ [d])" by simp
    with Suc directive show ?thesis by blast
  qed (use that(2) in simp_all)
  have d: "has_arguments d"
    if "parseDirective (Suc n) U p = Some (Inr (d, p'))" for U p d p'
    using that
  proof (cases rule: parseDirective_SucE)
    case (block args p1 p2 subdirs p3)
    with Suc have "list_all has_arguments subdirs" by blast
    with block show ?thesis by simp
  next
    case (block_semi args p1 p2 subdirs p3)
    with Suc have "list_all has_arguments subdirs" by blast
    with block_semi show ?thesis by simp
  qed simp_all
  have b: "list_all has_arguments ds"
    if "parseBlock (Suc n) U p = Some (Inr (ds, p'))" for U p ds p'
    using that
  proof (cases rule: parseBlock_SucE)
    case (1 p1 p2)
    have "list_all has_arguments ([]::Directive list)" by simp
    with Suc 1 show ?thesis by blast
  qed
  from ds d b show ?case by blast
qed

text \<open>
  C1. Whatever the fuel, a successful parse returns a tree in which every directive, at any
  depth, has at least one argument; a directive for which \<open>parseArguments\<close> collects no
  argument is refused with the "must have at least one argument" message, and so is the
  text \<open>;\<close>.
\<close>

theorem directives_have_arguments:
  "(\<forall>cu. parse_text n U s = Some (Inr cu) \<longrightarrow> list_all has_arguments (Directives cu))
   \<and> (\<forall>p1. parseArguments U p = Inr ([], p1) \<longrightarrow>
         parseDirective (Suc n) U p = Some (Inl (NoArguments (Line (current p1)))))
   \<and> parse U (str '';'') = Some (Inl (NoArguments 1))
   \<and> kind_of (NoArguments 1) = MissingArguments"
proof (intro conjI allI impI)
  fix cu
  assume "parse_text n U s = Some (Inr cu)"
  then obtain p ds p' where "parseDirectives n U False p [] = Some (Inr (ds, p'))"
    "cu = ConfigurationUnit ds"
    by (auto simp: parse_text_def Parse_def split: sum.splits option.splits prod.splits)
  moreover have "list_all has_arguments ([]::Directive list)" by simp
  ultimately show "list_all has_arguments (Directives cu)"
    using parser_has_arguments [of n] by (metis ConfigurationUnit.sel)
next
  fix p1
  assume "parseArguments U p = Inr ([], p1)"
  then show "parseDirective (Suc n) U p = Some (Inl (NoArguments (Line (current p1))))"
    by simp
next
  show "parse U (str '';'') = Some (Inl (NoArguments 1))" by (simp add: run)
qed simp

theorem directives_have_arguments_witness:
  "parse_text 9 Latin1 (str ''a {b}'') =
     Some (Inr (ConfigurationUnit [Directive [str ''a''] [Directive [str ''b''] []]]))
   \<and> list_all has_arguments
        (Directives (ConfigurationUnit [Directive [str ''a''] [Directive [str ''b''] []]]))
   \<and> parseDirective (Suc 0) Latin1
        \<lparr>lexer = \<lparr>input = str '';'', pos = 1, line = 1, column = 2\<rparr>,
         current = \<lparr>Type = TokenSemicolon, Value = str '';'', Line = 1, Column = 1\<rparr>\<rparr>
       = Some (Inl (NoArguments 1))"
proof -
  let ?p = "\<lparr>lexer = \<lparr>input = str '';'', pos = 1, line = 1, column = 2\<rparr>,
         current = \<lparr>Type = TokenSemicolon, Value = str '';'', Line = 1, Column = 1\<rparr>\<rparr>"
  have h1: "parse_text 9 Latin1 (str ''a {b}'') =
     Some (Inr (ConfigurationUnit [Directive [str ''a''] [Directive [str ''b''] []]]))"
    by (simp add: run)
  have h2: "parseArguments Latin1 ?p = Inr ([], ?p)"
    by (simp add: parseArguments_def parseArguments_loop.simps)
  note t = directives_have_arguments [of 9 Latin1 "str ''a {b}''" ?p]
  from t [THEN conjunct1, rule_format, OF h1]
    directives_have_arguments [of 0 Latin1 "[]" ?p, THEN conjunct2, THEN conjunct1, rule_format, OF h2]
    h1
  show ?thesis by simp
qed

text \<open>
  C10. Two double quotes not followed by a third are a complete argument with the empty
  value: \<open>key ""\<close> parses to one directive with the arguments \<open>key\<close> and the empty string.
\<close>

theorem empty_quoted_argument:
  "parse U (str ''key \"\"'') = Some (Inr (ConfigurationUnit [Directive [str ''key'', []] []]))
   \<and> (pos l < length (input l) \<and> peek l = 0x22 \<and> peek (snd (advance l)) = 0x22
        \<and> peek (snd (advance (snd (advance l)))) \<noteq> 0x22 \<longrightarrow>
      scanQuotedArgument U l =
        Inr (\<lparr>Type = TokenArgument, Value = [], Line = line l, Column = column l\<rparr>,
             snd (advance (snd (advance l)))))"
  by (simp add: run)


theorem empty_quoted_argument_witness:
  "scanQuotedArgument Latin1 \<lparr>input = str ''key \"\"'', pos = 4, line = 1, column = 5\<rparr> =
     Inr (\<lparr>Type = TokenArgument, Value = [], Line = 1, Column = 5\<rparr>,
          \<lparr>input = str ''key \"\"'', pos = 6, line = 1, column = 7\<rparr>)"
proof -
  let ?l = "\<lparr>input = str ''key \"\"'', pos = 4, line = 1, column = 5\<rparr>"
  have h: "pos ?l < length (input ?l) \<and> peek ?l = 0x22 \<and> peek (snd (advance ?l)) = 0x22
        \<and> peek (snd (advance (snd (advance ?l)))) \<noteq> 0x22"
    by (simp add: str_def peek_def advance_def)
  from empty_quoted_argument [of Latin1 ?l, THEN conjunct2, rule_format, OF h]
  show ?thesis by (simp add: str_def advance_def)
qed


section \<open>Serializer (types.go)\<close>

text \<open>The \<^verbatim>\<open>strings.Builder\<close> is the text written so far; every write appends to it.\<close>

function writeIndent :: "nat \<Rightarrow> nat \<Rightarrow> gostring \<Rightarrow> gostring" where
  "writeIndent i indent sb =
     (if i < indent then writeIndent (i + 1) indent (sb @ str ''    '') else sb)"
  by pat_completeness auto
termination
  by (relation "measure (\<lambda>(i, indent, sb). indent - i)") auto

function printArguments :: "nat \<Rightarrow> gostring list \<Rightarrow> gostring \<Rightarrow> gostring" where
  "printArguments i args sb =
     (if i < length args
      then (let sb1 = sb @ str ''<'' @ (args ! i) @ str ''>'';
                sb2 = (if int i < int (length args) - 1 then sb1 @ str '' '' else sb1)
            in printArguments (i + 1) args sb2)
      else sb)"
  by pat_completeness auto
termination
  by (relation "measure (\<lambda>(i, args, sb). length args - i)") auto

function printDirectives :: "gostring \<Rightarrow> Directive list \<Rightarrow> nat \<Rightarrow> gostring" where
  "printDirectives sb [] indent = sb"
| "printDirectives sb (dir # rest) indent =
     (let sb1 = writeIndent 0 indent sb;
          sb2 = printArguments 0 (Arguments dir) sb1;
          sb3 = (if length (Subdirectives dir) > 0
                 then (let sb4 = printDirectives (sb2 @ str '' ['' @ [0x0A]) (Subdirectives dir)
                                   (indent + 1);
                           sb5 = writeIndent 0 indent sb4
                       in sb5 @ str '']'')
                 else sb2)
      in printDirectives (sb3 @ [0x0A]) rest indent)"
  by pat_completeness auto
termination
  apply (relation "measure (\<lambda>(sb, ds, indent). size_list size ds)")
    apply simp
   apply (case_tac dir)
   apply simp
  apply (case_tac dir)
  apply simp
  done

definition ConfigurationUnit_String :: "ConfigurationUnit \<Rightarrow> gostring" where
  "ConfigurationUnit_String cf = printDirectives [] (Directives cf) 0"


declare writeIndent.simps [simp del] printArguments.simps [simp del]

text \<open>
  The rendering as the specification words it: four spaces for each level, the arguments in
  angle brackets with one space between two of them, then, for a directive with
  subdirectives, \<open> [\<close> and a newline, the children one level deeper and \<open>]\<close> at the
  directive's own indentation; a newline ends every directive.
\<close>

fun render_arguments :: "gostring list \<Rightarrow> gostring" where
  "render_arguments [] = []"
| "render_arguments [a] = str ''<'' @ a @ str ''>''"
| "render_arguments (a # b # rest) = str ''<'' @ a @ str ''>'' @ str '' '' @ render_arguments (b # rest)"

fun render_directive :: "nat \<Rightarrow> Directive \<Rightarrow> gostring" where
  "render_directive depth (Directive args subdirs) =
     replicate (4 * depth) 0x20 @ render_arguments args
     @ (if subdirs \<noteq> []
        then str '' ['' @ [0x0A] @ concat (map (render_directive (depth + 1)) subdirs)
             @ replicate (4 * depth) 0x20 @ str '']''
        else [])
     @ [0x0A]"

definition render :: "ConfigurationUnit \<Rightarrow> gostring" where
  "render cf = concat (map (render_directive 0) (Directives cf))"

lemma writeIndent_eq: "writeIndent i indent sb = sb @ replicate (4 * (indent - i)) 0x20"
proof (induction i indent sb rule: writeIndent.induct)
  case (1 i indent sb)
  show ?case
  proof (cases "i < indent")
    case True
    then have "indent - i = Suc (indent - (i + 1))" by simp
    moreover have "replicate (4 + k) (0x20::int) = str ''    '' @ replicate k 0x20" for k
      by (simp add: str_def replicate_add [of 4 k, simplified] eval_nat_numeral)
    ultimately have "replicate (4 * (indent - i)) (0x20::int)
               = str ''    '' @ replicate (4 * (indent - (i + 1))) 0x20"
      by simp
    with True "1.IH" show ?thesis by (subst writeIndent.simps) simp
  next
    case False
    then show ?thesis by (subst writeIndent.simps) simp
  qed
qed

lemma render_arguments_drop:
  "i < length args \<Longrightarrow>
   render_arguments (drop i args) =
     str ''<'' @ (args ! i) @ str ''>''
     @ (if int i < int (length args) - 1 then str '' '' else []) @ render_arguments (drop (i + 1) args)"
proof -
  assume lt: "i < length args"
  then have d: "drop i args = (args ! i) # drop (i + 1) args"
    by (simp add: Cons_nth_drop_Suc)
  show ?thesis
  proof (cases "drop (i + 1) args")
    case Nil
    then have "\<not> int i < int (length args) - 1" by simp
    with d Nil show ?thesis by simp
  next
    case (Cons b rest)
    then have "i + 1 < length args" by (cases "i + 1 < length args") simp_all
    then have "int i < int (length args) - 1" by simp
    with d Cons show ?thesis by simp
  qed
qed

lemma printArguments_eq:
  "printArguments i args sb = sb @ render_arguments (drop i args)"
proof (induction i args sb rule: printArguments.induct)
  case (1 i args sb)
  show ?case
  proof (cases "i < length args")
    case True
    with "1.IH" render_arguments_drop [OF True] show ?thesis
      by (subst printArguments.simps) (simp add: Let_def)
  next
    case False
    then show ?thesis by (subst printArguments.simps) simp
  qed
qed

lemma printDirectives_eq:
  "printDirectives sb ds indent = sb @ concat (map (render_directive indent) ds)"
proof (induction sb ds indent rule: printDirectives.induct)
  case (1 sb indent)
  show ?case by simp
next
  case (2 sb dir rest indent)
  obtain args subdirs where dir: "dir = Directive args subdirs" by (cases dir)
  show ?case
  proof (cases "subdirs = []")
    case True
    with dir "2.IH"(2) show ?thesis
      by (simp add: Let_def writeIndent_eq printArguments_eq)
  next
    case False
    with dir "2.IH" show ?thesis
      by (simp add: Let_def writeIndent_eq printArguments_eq)
  qed
qed

text \<open>
  C7. The text that \<open>String\<close> builds with its loops over the string builder is the
  rendering the specification describes, for every configuration unit.
\<close>

theorem String_is_render: "ConfigurationUnit_String cf = render cf"
  by (simp add: ConfigurationUnit_String_def render_def printDirectives_eq)
















lemma parseDirectives_stop:
  "parseDirectives n U b p ds = Some (Inr (ds', p')) \<Longrightarrow>
   Type (current p') = TokenEOF \<or> (b \<and> Type (current p') = TokenRightBrace)"
proof (induction n arbitrary: p ds)
  case 0
  then show ?case by simp
next
  case (Suc n)
  from Suc.prems show ?case
  proof (cases rule: parseDirectives_SucE)
    case (newline p1)
    with Suc.IH show ?thesis by blast
  next
    case (directive d p1)
    with Suc.IH show ?thesis by blast
  qed simp_all
qed





text \<open>
  The two brace situations: the top-level list ends at a right brace, or the list of a block
  ends at the end of input; and the error that the code returns there.
\<close>

definition brace_situation :: "bool \<times> Token \<Rightarrow> bool" where
  "brace_situation x =
     (if fst x then Type (snd x) = TokenEOF else Type (snd x) = TokenRightBrace)"

definition brace_error :: "bool \<times> Token \<Rightarrow> error" where
  "brace_error x =
     (if fst x then ExpectedRightBrace (Line (snd x)) TokenEOF
      else UnmatchedRightBrace (Line (snd x)))"

definition situation_in :: "(bool \<times> Token) list \<Rightarrow> error \<Rightarrow> bool" where
  "situation_in xs e = list_ex (\<lambda>x. brace_situation x \<and> e = brace_error x) xs"

text \<open>
  A directive list fails with \<open>e\<close>: it returns \<open>e\<close>, or it is the list of a block and ends
  at the end of input, for which \<^verbatim>\<open>parseBlock\<close> returns \<open>e\<close>.
\<close>

definition list_fails ::
  "(error + Directive list \<times> Parser) option \<Rightarrow> bool \<Rightarrow> error \<Rightarrow> bool" where
  "list_fails r insideBlock e =
     (r = Some (Inl e)
      \<or> (insideBlock \<and> (\<exists>ds p. r = Some (Inr (ds, p)) \<and> Type (current p) = TokenEOF
            \<and> e = ExpectedRightBrace (Line (current p)) TokenEOF)))"

lemma situation_in_simps [simp]:
  "situation_in [] e = False"
  "situation_in (xs @ ys) e = (situation_in xs e \<or> situation_in ys e)"
  "situation_in [(b, t)] e = (brace_situation (b, t) \<and> e = brace_error (b, t))"
  by (auto simp: situation_in_def)

lemma list_fails_simps [simp]:
  "list_fails None b e = False"
  "list_fails (Some (Inl e')) b e = (e' = e)"
  "list_fails (Some (Inr (ds, p))) b e
     = (b \<and> Type (current p) = TokenEOF \<and> e = ExpectedRightBrace (Line (current p)) TokenEOF)"
  by (auto simp: list_fails_def)








text \<open>The cursor where a token starts: after the byte-order mark and the whitespace.\<close>

definition tokenStart :: "Lexer \<Rightarrow> Lexer" where
  "tokenStart l = skipWhitespace (skipBOM l)"

lemma NextToken_ctrlZ:
  assumes "pos l \<noteq> 0 \<or> ValidateUTF8 (input l)"
    and "pos (tokenStart l) < length (input (tokenStart l))" and "peek (tokenStart l) = 0x1A"
  shows "NextToken U l =
     (if pos (tokenStart l) + 1 < length (input (tokenStart l))
      then Inl (ForbiddenCharacter (line (tokenStart l)) (column (tokenStart l)))
      else Inr (makeToken (tokenStart l) TokenEOF [], tokenStart l))"
  using assms
  unfolding NextToken_def skipBOM_def [symmetric] Let_def tokenStart_def [symmetric]
  by auto

lemma ctrlZ_forbidden: "IsForbidden U 0x1A"
  by (simp add: char_defs)

lemma scanComment_loop_ctrlZ:
  "pos l < length (input l) \<Longrightarrow> peek l = 0x1A \<Longrightarrow>
   scanComment_loop U l = Inl (ForbiddenInComment (line l))"
  by (subst scanComment_loop.simps) (simp add: ctrlZ_forbidden IsLineTerminator_def)

lemma scanSingleQuoted_loop_ctrlZ:
  "pos l < length (input l) \<Longrightarrow> peek l = 0x1A \<Longrightarrow>
   scanSingleQuoted_loop U tok l buf = Inl (ForbiddenInString (line l))"
  by (subst scanSingleQuoted_loop.simps) (simp add: ctrlZ_forbidden IsLineTerminator_def)

lemma scanTripleQuoted_loop_ctrlZ:
  "pos l < length (input l) \<Longrightarrow> peek l = 0x1A \<Longrightarrow>
   scanTripleQuoted_loop U tok l buf = Inl (ForbiddenInString (line l))"
  by (subst scanTripleQuoted_loop.simps) (simp add: ctrlZ_forbidden)

lemma consumeTerminator_effect:
  "pos l < length (input l) \<Longrightarrow>
   input (consumeTerminator l) = input l
   \<and> pos (consumeTerminator l)
       = (if peek l = 0x0D \<and> peek (snd (advance l)) = 0x0A then pos l + 2 else pos l + 1)
   \<and> line (consumeTerminator l) = line l + 1 \<and> column (consumeTerminator l) = 1"
  by (auto simp: consumeTerminator_def Let_def case_prod_beta advance_pos)
     (auto simp: advance_def peek_def split: if_splits)

lemma advance_line [simp]: "line (snd (advance l)) = line l"
  by (simp add: advance_def)

lemma terminator_not_end: "IsLineTerminator (peek l) \<Longrightarrow> pos l < length (input l)"
  by (auto simp: peek_def IsLineTerminator_def split: if_splits)

text \<open>
  C2, as the code has it. In a single-quoted argument a backslash followed by a line
  terminator is a line continuation: the backslash and the terminator (both characters of
  CR LF) are consumed, the value collected so far is unchanged, the line counter advances
  by one and scanning goes on. In a triple-quoted argument the same backslash is refused
  with the "invalid escape in triple-quoted string" error.
\<close>

theorem quoted_line_continuation:
  "(pos l < length (input l) \<and> peek l = 0x5C \<and> IsLineTerminator (peek (snd (advance l))) \<longrightarrow>
      scanSingleQuoted_loop U tok l buf
        = scanSingleQuoted_loop U tok (consumeTerminator (snd (advance l))) buf
      \<and> input (consumeTerminator (snd (advance l))) = input l
      \<and> pos (consumeTerminator (snd (advance l)))
          = (if peek (snd (advance l)) = 0x0D \<and> peek (snd (advance (snd (advance l)))) = 0x0A
             then pos l + 3 else pos l + 2)
      \<and> line (consumeTerminator (snd (advance l))) = line l + 1
      \<and> column (consumeTerminator (snd (advance l))) = 1
      \<and> scanTripleQuoted_loop U tok l buf = Inl (InvalidEscapeTriple (line l)))
   \<and> parse U (str ''\"a'' @ [0x5C, 0x0A] @ str ''b\"'')
        = Some (Inr (ConfigurationUnit [Directive [str ''ab''] []]))
   \<and> parse U (str ''\"a'' @ [0x5C, 0x0D, 0x0A] @ str ''b\"'')
        = Some (Inr (ConfigurationUnit [Directive [str ''ab''] []]))
   \<and> parse U (str ''\"\"\"a'' @ [0x5C, 0x0A] @ str ''b\"\"\"'') = Some (Inl (InvalidEscapeTriple 1))"
proof (intro conjI impI)
  assume a: "pos l < length (input l) \<and> peek l = 0x5C \<and> IsLineTerminator (peek (snd (advance l)))"
  then have p1: "pos (snd (advance l)) < length (input (snd (advance l)))"
    by (intro terminator_not_end) simp
  from a have pa: "pos (snd (advance l)) = pos l + 1" by (simp add: advance_pos)
  from a show "scanSingleQuoted_loop U tok l buf
        = scanSingleQuoted_loop U tok (consumeTerminator (snd (advance l))) buf"
    by (subst scanSingleQuoted_loop.simps) (simp add: Let_def)
  from consumeTerminator_effect [OF p1] pa
  show "input (consumeTerminator (snd (advance l))) = input l"
    "pos (consumeTerminator (snd (advance l)))
          = (if peek (snd (advance l)) = 0x0D \<and> peek (snd (advance (snd (advance l)))) = 0x0A
             then pos l + 3 else pos l + 2)"
    "line (consumeTerminator (snd (advance l))) = line l + 1"
    "column (consumeTerminator (snd (advance l))) = 1"
    by simp_all
  from a show "scanTripleQuoted_loop U tok l buf = Inl (InvalidEscapeTriple (line l))"
    by (subst scanTripleQuoted_loop.simps) (simp add: Let_def)
next
  show "parse U (str ''\"a'' @ [0x5C, 0x0A] @ str ''b\"'')
        = Some (Inr (ConfigurationUnit [Directive [str ''ab''] []]))"
    by (simp add: run)
next
  show "parse U (str ''\"a'' @ [0x5C, 0x0D, 0x0A] @ str ''b\"'')
        = Some (Inr (ConfigurationUnit [Directive [str ''ab''] []]))"
    by (simp add: run)
next
  show "parse U (str ''\"\"\"a'' @ [0x5C, 0x0A] @ str ''b\"\"\"'') = Some (Inl (InvalidEscapeTriple 1))"
    by (simp add: run)
qed

theorem quoted_line_continuation_witness:
  "scanSingleQuoted_loop Latin1 \<lparr>Type = TokenArgument, Value = [], Line = 1, Column = 1\<rparr>
      \<lparr>input = str ''\"a'' @ [0x5C, 0x0D, 0x0A] @ str ''b\"'', pos = 2, line = 1, column = 3\<rparr> (str ''a'')
    = scanSingleQuoted_loop Latin1 \<lparr>Type = TokenArgument, Value = [], Line = 1, Column = 1\<rparr>
      \<lparr>input = str ''\"a'' @ [0x5C, 0x0D, 0x0A] @ str ''b\"'', pos = 5, line = 2, column = 1\<rparr> (str ''a'')
   \<and> scanTripleQuoted_loop Latin1 \<lparr>Type = TokenArgument, Value = [], Line = 1, Column = 1\<rparr>
      \<lparr>input = str ''\"a'' @ [0x5C, 0x0D, 0x0A] @ str ''b\"'', pos = 2, line = 1, column = 3\<rparr> (str ''a'')
    = Inl (InvalidEscapeTriple 1)"
proof -
  let ?l = "\<lparr>input = str ''\"a'' @ [0x5C, 0x0D, 0x0A] @ str ''b\"'', pos = 2, line = 1, column = 3\<rparr>"
  have h: "pos ?l < length (input ?l) \<and> peek ?l = 0x5C \<and> IsLineTerminator (peek (snd (advance ?l)))"
    by (simp add: str_def peek_def advance_def IsLineTerminator_def)
  have c: "consumeTerminator (snd (advance ?l))
           = \<lparr>input = str ''\"a'' @ [0x5C, 0x0D, 0x0A] @ str ''b\"'', pos = 5, line = 2, column = 1\<rparr>"
    by (simp add: str_def peek_def advance_def consumeTerminator_def)
  from quoted_line_continuation [where l = ?l and U = Latin1, THEN conjunct1, rule_format, OF h]
  show ?thesis unfolding c by simp
qed

text \<open>
  The claim as it is worded fails in a triple-quoted argument: a backslash before a line
  feed there is an error, not a continuation.
\<close>

theorem triple_quoted_continuation_counterexample:
  "parse Latin1 (str ''\"\"\"a'' @ [0x5C, 0x0A] @ str ''b\"\"\"'') = Some (Inl (InvalidEscapeTriple 1))"
  by (simp add: run)


text \<open>
  The code points the claim is about, in the specification's words: the noncharacters, and
  the code points that no table of the \<^verbatim>\<open>unicode\<close> package holds.
\<close>

definition noncharacter :: "rune \<Rightarrow> bool" where
  "noncharacter r = ((0xFDD0 \<le> r \<and> r \<le> 0xFDEF) \<or> r mod 0x10000 = 0xFFFE \<or> r mod 0x10000 = 0xFFFF)"

definition unassigned :: "unicode_tables \<Rightarrow> rune \<Rightarrow> bool" where
  "unassigned U r = (\<not> unicode_White_Space r \<and> \<not> unicode_Cf U r \<and> \<not> unicode_Cc r
     \<and> \<not> unicode_Cs r \<and> \<not> unicode_Co r \<and> \<not> unicode_IsPrint U r)"

text \<open>
  Two facts of every Unicode version that the tables above U+00FF must respect: the
  byte-order mark U+FEFF is a format character, and no noncharacter is one.
\<close>

definition tables_ok :: "unicode_tables \<Rightarrow> bool" where
  "tables_ok U = (CfRanges U 0xFEFF \<and> (\<forall>r. noncharacter r \<longrightarrow> \<not> CfRanges U r))"

lemma low16_test: "(r AND 0xFFFE = 0xFFFE) = (r mod 0x10000 = 0xFFFE \<or> r mod 0x10000 = 0xFFFF)"
  for r :: int
proof -
  have m: "(0xFFFE::int) = 2 * mask 15" by (simp add: mask_eq_exp_minus_1)
  have "r AND 0xFFFE = 2 * ((r div 2) AND mask 15)"
    unfolding m by (simp add: and_int.rec [of r "2 * mask 15"] )
  also have "\<dots> = 2 * ((r div 2) mod 2 ^ 15)"
    by (simp add: and_mask_mod_2p take_bit_eq_mod flip: take_bit_eq_mask)
  finally have "(r AND 0xFFFE = 0xFFFE) = ((r div 2) mod 2 ^ 15 = 0x7FFF)" by auto
  also have "\<dots> = (r mod 0x10000 = 0xFFFE \<or> r mod 0x10000 = 0xFFFF)"
  proof -
    have "r mod (2 * 32768) = 2 * (r div 2 mod 32768) + r mod 2"
      by (rule zmod_zmult2_eq) simp
    moreover have "r mod 2 = 0 \<or> r mod 2 = 1" by presburger
    ultimately show ?thesis by auto
  qed
  finally show ?thesis .
qed


lemma noncharacter_forbidden:
  "noncharacter r \<Longrightarrow> \<not> CfRanges U r \<Longrightarrow> IsForbidden U r"
proof -
  assume n: "noncharacter r" and c: "\<not> CfRanges U r"
  have big: "0xFDD0 \<le> r \<or> r < 0" if "r mod 0x10000 = 0xFFFE \<or> r mod 0x10000 = 0xFFFF"
  proof (rule ccontr)
    assume "\<not> (0xFDD0 \<le> r \<or> r < 0)"
    then have "0 \<le> r" "r < 0x10000" by simp_all
    then have "r mod 0x10000 = r" by simp
    with that \<open>\<not> (0xFDD0 \<le> r \<or> r < 0)\<close> show False by auto
  qed
  from n have r: "0xFDD0 \<le> r \<or> r < 0" unfolding noncharacter_def using big by auto
  then have ws: "\<not> unicode_White_Space r" by (auto simp: unicode_White_Space_def)
  from r c have cf: "\<not> unicode_Cf U r" by (auto simp: unicode_Cf_def)
  have co: "\<not> unicode_Co r"
  proof
    assume "unicode_Co r"
    then consider "0xE000 \<le> r" "r \<le> 0xF8FF" | "0xF0000 \<le> r" "r \<le> 0xFFFFD"
      | "0x100000 \<le> r" "r \<le> 0x10FFFD"
      by (auto simp: unicode_Co_def)
    then show False
    proof cases
      case 1
      then have "r mod 0x10000 = r" by simp
      with 1 n show False by (auto simp: noncharacter_def)
    next
      case 2
      then have "(r - 0xF0000) mod 0x10000 = r - 0xF0000" by simp
      moreover have "(r - 0xF0000) mod 0x10000 = r mod 0x10000"
        using mod_mult_self2 [of "r - 0xF0000" "0x10000" 15] by simp
      ultimately show False using 2 n by (auto simp: noncharacter_def)
    next
      case 3
      then have "(r - 0x100000) mod 0x10000 = r - 0x100000" by simp
      moreover have "(r - 0x100000) mod 0x10000 = r mod 0x10000"
        using mod_mult_self2 [of "r - 0x100000" "0x10000" 16] by simp
      ultimately show False using 3 n by (auto simp: noncharacter_def)
    qed
  qed
  from n ws cf co show ?thesis
    unfolding IsForbidden_def low16_test noncharacter_def by auto
qed

lemma unassigned_forbidden: "unassigned U r \<Longrightarrow> IsForbidden U r"
  unfolding unassigned_def IsForbidden_def unicode_IsControl_def unicode_Cc_def unicode_IsSpace_def
  by (auto simp: unicode_White_Space_def)


text \<open>Every character before the cursor has passed the forbidden-character test.\<close>

definition consumed_ok :: "unicode_tables \<Rightarrow> Lexer \<Rightarrow> bool" where
  "consumed_ok U l = (pos l \<le> length (input l) \<and> (\<forall>i < pos l. \<not> IsForbidden U (input l ! i)))"

lemma consumed_ok_line [simp]:
  "consumed_ok U (l\<lparr>line := a, column := b\<rparr>) = consumed_ok U l"
  by (simp add: consumed_ok_def)

lemma advance_ok:
  "consumed_ok U l \<Longrightarrow> \<not> IsForbidden U (peek l) \<Longrightarrow> consumed_ok U (snd (advance l))"
  by (auto simp: consumed_ok_def advance_def peek_def less_Suc_eq)

lemma advance_ok_end:
  "consumed_ok U l \<Longrightarrow> length (input l) \<le> pos l \<Longrightarrow> consumed_ok U (snd (advance l))"
  by (auto simp: consumed_ok_def advance_def)

lemma whitespace_allowed: "IsWhitespace r \<Longrightarrow> \<not> IsForbidden U r"
  by (auto simp: IsWhitespace_def IsForbidden_def split: if_splits)

lemma terminator_allowed: "IsLineTerminator r \<Longrightarrow> \<not> IsForbidden U r"
  by (auto simp: IsLineTerminator_def IsForbidden_def unicode_White_Space_def)

lemma ascii_allowed: "0x20 \<le> r \<Longrightarrow> r \<le> 0x7E \<Longrightarrow> \<not> IsForbidden U r"
  unfolding IsForbidden_def low16_test unicode_IsPrint_def unicode_Cc_def unicode_Cs_def
  by auto

lemma skipWhitespace_ok: "consumed_ok U l \<Longrightarrow> consumed_ok U (skipWhitespace l)"
proof (induction l rule: skipWhitespace.induct)
  case (1 l)
  show ?case
    apply (subst skipWhitespace.simps)
    using 1 by (auto simp: advance_ok whitespace_allowed)
qed

lemma consumeTerminator_ok:
  "consumed_ok U l \<Longrightarrow> IsLineTerminator (peek l) \<Longrightarrow> consumed_ok U (consumeTerminator l)"
proof -
  assume a: "consumed_ok U l" "IsLineTerminator (peek l)"
  then have 1: "consumed_ok U (snd (advance l))"
    by (intro advance_ok terminator_allowed)
  have "\<not> IsForbidden U 0x0A" by (rule terminator_allowed) (simp add: IsLineTerminator_def)
  then have "peek (snd (advance l)) = 0x0A \<Longrightarrow> consumed_ok U (snd (advance (snd (advance l))))"
    using 1 by (simp add: advance_ok)
  with 1 show ?thesis
    by (simp add: consumeTerminator_def Let_def case_prod_beta)
qed

lemma scanComment_loop_ok:
  "scanComment_loop U l = Inr l' \<Longrightarrow> consumed_ok U l \<Longrightarrow> consumed_ok U l'"
proof (induction U l rule: scanComment_loop.induct)
  case (1 U l)
  from "1.prems" show ?case
    apply (subst (asm) scanComment_loop.simps)
    using "1.IH" by (auto simp: Let_def advance_ok split: if_splits)
qed

lemma argument_char_allowed: "IsArgumentChar U r \<Longrightarrow> \<not> IsForbidden U r"
  by (auto simp: IsArgumentChar_def split: if_splits)

lemma backslash_allowed: "\<not> IsForbidden U 0x5C"
  by (rule ascii_allowed) simp_all

lemma quote_allowed: "\<not> IsForbidden U 0x22"
  by (rule ascii_allowed) simp_all

lemma scanSimpleArgument_loop_ok:
  "scanSimpleArgument_loop U tok l buf = Inr (t, l') \<Longrightarrow> consumed_ok U l \<Longrightarrow> consumed_ok U l'"
proof (induction U tok l buf rule: scanSimpleArgument_loop.induct)
  case (1 U tok l buf)
  have b: "peek l = 0x5C \<Longrightarrow> consumed_ok U (snd (advance l))"
    using "1.prems"(2) backslash_allowed [of U] by (intro advance_ok) simp_all
  from "1.prems" show ?case
    apply (subst (asm) scanSimpleArgument_loop.simps)
    using "1.IH" b
    by (auto simp: Let_def advance_ok argument_char_allowed skipWhitespace_ok
        consumeTerminator_ok split: if_splits)
qed

lemma scanSingleQuoted_loop_ok:
  "scanSingleQuoted_loop U tok l buf = Inr (t, l') \<Longrightarrow> consumed_ok U l \<Longrightarrow> consumed_ok U l'"
proof (induction U tok l buf rule: scanSingleQuoted_loop.induct)
  case (1 U tok l buf)
  have b: "peek l = 0x5C \<Longrightarrow> consumed_ok U (snd (advance l))"
    using "1.prems"(2) backslash_allowed [of U] by (intro advance_ok) simp_all
  have q: "peek l = 0x22 \<Longrightarrow> consumed_ok U (snd (advance l))"
    using "1.prems"(2) quote_allowed [of U] by (intro advance_ok) simp_all
  from "1.prems" show ?case
    apply (subst (asm) scanSingleQuoted_loop.simps)
    using "1.IH" b q
    by (auto simp: Let_def advance_ok consumeTerminator_ok split: if_splits)
qed

lemma scanTripleQuoted_loop_ok:
  "scanTripleQuoted_loop U tok l buf = Inr (t, l') \<Longrightarrow> consumed_ok U l \<Longrightarrow> consumed_ok U l'"
proof (induction U tok l buf rule: scanTripleQuoted_loop.induct)
  case (1 U tok l buf)
  have b: "peek l = 0x5C \<Longrightarrow> consumed_ok U (snd (advance l))"
    using "1.prems"(2) backslash_allowed [of U] by (intro advance_ok) simp_all
  have q: "consumed_ok U (snd (advance (snd (advance (snd (advance l))))))"
    if "pos l + 2 < length (input l)" "peek l = 0x22" "input l ! (pos l + 1) = 0x22"
      "input l ! (pos l + 2) = 0x22"
    using that "1.prems"(2) quote_allowed [of U]
    by (auto simp: consumed_ok_def advance_def peek_def less_Suc_eq)
  from "1.prems" show ?case
    apply (subst (asm) scanTripleQuoted_loop.simps)
    using "1.IH" b q
    by (auto simp: Let_def advance_ok split: if_splits)
qed


lemma scanSimpleArgument_loop_type:
  "scanSimpleArgument_loop U tok l buf = Inr (t, l') \<Longrightarrow>
   Type t = Type tok \<or> Type t = TokenLineContinuation"
proof (induction U tok l buf rule: scanSimpleArgument_loop.induct)
  case (1 U tok l buf)
  from "1.prems" show ?case
    apply (subst (asm) scanSimpleArgument_loop.simps)
    using "1.IH" by (auto simp: Let_def makeToken_def split: if_splits)
qed

lemma scanSingleQuoted_loop_type:
  "scanSingleQuoted_loop U tok l buf = Inr (t, l') \<Longrightarrow> Type t = Type tok"
proof (induction U tok l buf rule: scanSingleQuoted_loop.induct)
  case (1 U tok l buf)
  from "1.prems" show ?case
    apply (subst (asm) scanSingleQuoted_loop.simps)
    using "1.IH" by (auto simp: Let_def split: if_splits)
qed

lemma scanTripleQuoted_loop_type:
  "scanTripleQuoted_loop U tok l buf = Inr (t, l') \<Longrightarrow> Type t = Type tok"
proof (induction U tok l buf rule: scanTripleQuoted_loop.induct)
  case (1 U tok l buf)
  from "1.prems" show ?case
    apply (subst (asm) scanTripleQuoted_loop.simps)
    using "1.IH" by (auto simp: Let_def split: if_splits)
qed

text \<open>The cursor at the end of the input, or on a Control-Z that is its last character.\<close>

definition at_end :: "Lexer \<Rightarrow> bool" where
  "at_end l = (length (input l) \<le> pos l
     \<or> (pos l + 1 = length (input l) \<and> input l ! pos l = 0x1A))"

lemma skipBOM_ok: "tables_ok U \<Longrightarrow> consumed_ok U l \<Longrightarrow> consumed_ok U (skipBOM l)"
proof -
  assume t: "tables_ok U" and c: "consumed_ok U l"
  from t have "\<not> IsForbidden U 0xFEFF"
    by (simp add: tables_ok_def IsForbidden_def unicode_Cf_def unicode_White_Space_def)
  with c show ?thesis
    by (cases "input l") (auto simp: skipBOM_def consumed_ok_def)
qed

lemma scanNewline_ok:
  "scanNewline l = Inr (t, l') \<Longrightarrow> consumed_ok U l \<Longrightarrow> \<not> IsForbidden U (peek l) \<Longrightarrow>
   consumed_ok U l' \<and> Type t = TokenNewline"
proof -
  assume a: "scanNewline l = Inr (t, l')" "consumed_ok U l" "\<not> IsForbidden U (peek l)"
  then have 1: "consumed_ok U (snd (advance l))" by (simp add: advance_ok)
  have "\<not> IsForbidden U 0x0A" by (rule terminator_allowed) (simp add: IsLineTerminator_def)
  then have "peek (snd (advance l)) = 0x0A \<Longrightarrow> consumed_ok U (snd (advance (snd (advance l))))"
    using 1 by (simp add: advance_ok)
  with 1 a(1) show ?thesis
    by (auto simp: scanNewline_def Let_def case_prod_beta makeToken_def split: if_splits)
qed

lemma scanComment_ok:
  "scanComment U l = Inr (t, l') \<Longrightarrow> consumed_ok U l \<Longrightarrow> \<not> IsForbidden U (peek l) \<Longrightarrow>
   consumed_ok U l' \<and> Type t = TokenComment"
  by (auto simp: scanComment_def Let_def makeToken_def advance_ok split: sum.splits
      dest!: scanComment_loop_ok)

lemma scanQuotedArgument_ok:
  "scanQuotedArgument U l = Inr (t, l') \<Longrightarrow> consumed_ok U l \<Longrightarrow> \<not> IsForbidden U (peek l) \<Longrightarrow>
   consumed_ok U l' \<and> Type t = TokenArgument"
proof -
  assume a: "scanQuotedArgument U l = Inr (t, l')" "consumed_ok U l" "\<not> IsForbidden U (peek l)"
  then have 1: "consumed_ok U (snd (advance l))" by (simp add: advance_ok)
  then have 2: "peek (snd (advance l)) = 0x22 \<Longrightarrow> consumed_ok U (snd (advance (snd (advance l))))"
    using quote_allowed [of U] by (simp add: advance_ok)
  then have 3: "peek (snd (advance l)) = 0x22 \<Longrightarrow> peek (snd (advance (snd (advance l)))) = 0x22 \<Longrightarrow>
    consumed_ok U (snd (advance (snd (advance (snd (advance l))))))"
    using quote_allowed [of U] by (simp add: advance_ok)
  from a(1) 1 2 3 show ?thesis
    by (auto simp: scanQuotedArgument_def scanSingleQuoted_def scanTripleQuoted_def Let_def
        makeToken_def split: if_splits
        dest: scanSingleQuoted_loop_ok scanTripleQuoted_loop_ok
          scanSingleQuoted_loop_type scanTripleQuoted_loop_type)
qed

lemma scanSimpleArgument_ok:
  "scanSimpleArgument U l = Inr (t, l') \<Longrightarrow> consumed_ok U l \<Longrightarrow>
   consumed_ok U l' \<and> Type t \<noteq> TokenEOF"
  by (auto simp: scanSimpleArgument_def makeToken_def
      dest: scanSimpleArgument_loop_ok scanSimpleArgument_loop_type)

lemma NextToken_ok:
  assumes t: "tables_ok U" and c: "consumed_ok U l" and n: "NextToken U l = Inr (tok, l')"
  shows "consumed_ok U l' \<and> (Type tok = TokenEOF \<longrightarrow> at_end l')"
proof -
  define m where "m = skipWhitespace (skipBOM l)"
  have cm: "consumed_ok U m"
    unfolding m_def using t c by (intro skipWhitespace_ok skipBOM_ok)
  have a: "\<not> IsForbidden U (peek m) \<Longrightarrow> consumed_ok U (snd (advance m))"
    using cm by (simp add: advance_ok)
  from n cm a show ?thesis
    unfolding NextToken_def skipBOM_def [symmetric] Let_def m_def [symmetric]
    by (auto simp: makeToken_def at_end_def peek_def split: if_splits
        dest: scanNewline_ok scanComment_ok scanQuotedArgument_ok scanSimpleArgument_ok)
qed

text \<open>The same for the parser's cursor, with the token it has loaded.\<close>

definition parser_ok :: "unicode_tables \<Rightarrow> gostring \<Rightarrow> Parser \<Rightarrow> bool" where
  "parser_ok U s p = (input (lexer p) = s \<and> consumed_ok U (lexer p)
     \<and> (Type (current p) = TokenEOF \<longrightarrow> at_end (lexer p)))"

lemma Parser_advance_ok:
  "Parser_advance U p = Inr p' \<Longrightarrow> tables_ok U \<Longrightarrow> input (lexer p) = s \<Longrightarrow>
   consumed_ok U (lexer p) \<Longrightarrow> parser_ok U s p'"
proof (induction U p rule: Parser_advance.induct)
  case (1 U p)
  show ?case
  proof (cases "NextToken U (lexer p)")
    case (Inl e)
    with "1.prems" show ?thesis by (subst (asm) Parser_advance.simps) simp
  next
    case (Inr r)
    obtain tok l' where r: "r = (tok, l')" by (cases r)
    note nt = Inr [unfolded r]
    from NextToken_ok [OF "1.prems"(2,4) nt] NextToken_le [OF nt] "1.prems"(3)
    have ok: "consumed_ok U l'" "Type tok = TokenEOF \<longrightarrow> at_end l'" "input l' = s"
      by (auto simp: lex_le_def)
    show ?thesis
    proof (cases "Type tok = TokenComment")
      case True
      with "1.prems" nt have rec: "Parser_advance U (p\<lparr>lexer := l'\<rparr>) = Inr p'"
        by (subst (asm) Parser_advance.simps) simp
      from "1.IH" [OF nt refl True rec "1.prems"(2)] ok show ?thesis by simp
    next
      case False
      with "1.prems" nt have "p' = p\<lparr>lexer := l', current := tok\<rparr>"
        by (subst (asm) Parser_advance.simps) simp
      with ok show ?thesis by (simp add: parser_ok_def)
    qed
  qed
qed


lemma parseArguments_loop_ok:
  "parseArguments_loop U p args = Inr (args', p') \<Longrightarrow> tables_ok U \<Longrightarrow> parser_ok U s p \<Longrightarrow>
   parser_ok U s p'"
proof (induction U p args rule: parseArguments_loop.induct)
  case (1 U p args)
  have step: "parser_ok U s q" if "Parser_advance U p = Inr q" for q
    using Parser_advance_ok [OF that "1.prems"(2)] "1.prems"(3) by (simp add: parser_ok_def)
  from "1.prems" show ?case
    apply (subst (asm) parseArguments_loop.simps)
    using "1.IH" step
    by (auto split: if_splits sum.splits)
qed

lemma skipNewlines_ok:
  "skipNewlines U p = Inr p' \<Longrightarrow> tables_ok U \<Longrightarrow> parser_ok U s p \<Longrightarrow> parser_ok U s p'"
proof (induction U p rule: skipNewlines.induct)
  case (1 U p)
  have step: "parser_ok U s q" if "Parser_advance U p = Inr q" for q
    using Parser_advance_ok [OF that "1.prems"(2)] "1.prems"(3) by (simp add: parser_ok_def)
  from "1.prems" show ?case
    apply (subst (asm) skipNewlines.simps)
    using "1.IH" step
    by (auto split: if_splits sum.splits)
qed

lemma Parser_advance_ok':
  "Parser_advance U p = Inr p' \<Longrightarrow> tables_ok U \<Longrightarrow> parser_ok U s p \<Longrightarrow> parser_ok U s p'"
  using Parser_advance_ok [of U p p' s] by (simp add: parser_ok_def)

lemma parser_ok_preserved:
  assumes t: "tables_ok U"
  shows "(\<forall>b p ds ds' p'. parseDirectives n U b p ds = Some (Inr (ds', p')) \<longrightarrow>
            parser_ok U s p \<longrightarrow> parser_ok U s p')
   \<and> (\<forall>p d p'. parseDirective n U p = Some (Inr (d, p')) \<longrightarrow> parser_ok U s p \<longrightarrow> parser_ok U s p')
   \<and> (\<forall>p ds p'. parseBlock n U p = Some (Inr (ds, p')) \<longrightarrow> parser_ok U s p \<longrightarrow> parser_ok U s p')"
proof (induction n)
  case 0
  show ?case by simp
next
  case (Suc n)
  note adv = Parser_advance_ok' [OF _ t]
  have ds: "parser_ok U s p'"
    if "parseDirectives (Suc n) U b p ds = Some (Inr (ds', p'))" "parser_ok U s p"
    for b p ds ds' p'
    using that(1)
  proof (cases rule: parseDirectives_SucE)
    case (newline p1)
    with adv [of p p1 s] that(2) Suc show ?thesis by blast
  next
    case (directive d p1)
    with Suc that(2) have "parser_ok U s p1" by blast
    with Suc directive show ?thesis by blast
  qed (use that(2) in simp_all)
  have d: "parser_ok U s p'"
    if "parseDirective (Suc n) U p = Some (Inr (d, p'))" "parser_ok U s p" for p d p'
    using that(1)
  proof (cases rule: parseDirective_SucE)
    case (block args p1 p2 subdirs p3)
    from block(1) have "parser_ok U s p1"
      unfolding parseArguments_def using parseArguments_loop_ok t that(2) by blast
    with block(3) have "parser_ok U s p2" using skipNewlines_ok t by blast
    with Suc block show ?thesis by blast
  next
    case (block_semi args p1 p2 subdirs p3)
    from block_semi(1) have "parser_ok U s p1"
      unfolding parseArguments_def using parseArguments_loop_ok t that(2) by blast
    with block_semi(3) have "parser_ok U s p2" using skipNewlines_ok t by blast
    with Suc block_semi have "parser_ok U s p3" by blast
    with adv [of p3 p' s] block_semi show ?thesis by blast
  next
    case (newlines args p1)
    from newlines(1) have "parser_ok U s p1"
      unfolding parseArguments_def using parseArguments_loop_ok t that(2) by blast
    with newlines(3) show ?thesis using skipNewlines_ok t by blast
  next
    case (semi args p1)
    from semi(1) have "parser_ok U s p1"
      unfolding parseArguments_def using parseArguments_loop_ok t that(2) by blast
    with adv [of p1 p' s] semi show ?thesis by blast
  next
    case (stop args)
    from stop(1) show ?thesis
      unfolding parseArguments_def using parseArguments_loop_ok t that(2) by blast
  qed
  have b: "parser_ok U s p'"
    if "parseBlock (Suc n) U p = Some (Inr (ds, p'))" "parser_ok U s p" for p ds p'
    using that(1)
  proof (cases rule: parseBlock_SucE)
    case (1 p1 p2)
    with adv [of p p1 s] that(2) have "parser_ok U s p1" by blast
    with Suc 1 have "parser_ok U s p2" by blast
    with adv [of p2 p' s] 1 show ?thesis by blast
  qed
  from ds d b show ?case by blast
qed

lemma parse_text_consumed:
  assumes t: "tables_ok U" and p: "parse_text n U s = Some (Inr cu)"
  shows "\<exists>l. input l = s \<and> consumed_ok U l \<and> at_end l"
proof -
  from p obtain p0 ds p' where np: "NewParser U s = Inr p0"
    and pd: "parseDirectives n U False p0 [] = Some (Inr (ds, p'))"
    by (auto simp: parse_text_def Parse_def split: sum.splits option.splits prod.splits)
  have "consumed_ok U (NewLexer s)" by (simp add: consumed_ok_def NewLexer_def)
  with Parser_advance_ok [OF np [unfolded NewParser_def] t, of s] have "parser_ok U s p0"
    by (simp add: NewLexer_def)
  with parser_ok_preserved [OF t, of n s] pd have ok: "parser_ok U s p'" by blast
  from parseDirectives_stop [OF pd] have "Type (current p') = TokenEOF" by simp
  with ok show ?thesis by (auto simp: parser_ok_def)
qed

lemma escaped_forbidden:
  assumes "pos l < length (input l)" "peek l = 0x5C" "IsForbidden U (peek (snd (advance l)))"
  shows "scanSimpleArgument_loop U tok l buf = Inl (InvalidEscapeSequence (line l) (column l + 1))"
    and "scanSingleQuoted_loop U tok l buf = Inl (InvalidEscapeQuoted (line l))"
    and "scanTripleQuoted_loop U tok l buf = Inl (InvalidEscapeTriple (line l))"
proof -
  from assms(3) have nt: "\<not> IsLineTerminator (peek (snd (advance l)))"
    using terminator_allowed by blast
  from assms(1) have c: "column (snd (advance l)) = column l + 1" by (simp add: advance_def)
  from assms nt c show "scanSimpleArgument_loop U tok l buf
      = Inl (InvalidEscapeSequence (line l) (column l + 1))"
    unfolding scanSimpleArgument_loop.simps [of U tok l buf] by (simp add: Let_def)
  from assms nt show "scanSingleQuoted_loop U tok l buf = Inl (InvalidEscapeQuoted (line l))"
    unfolding scanSingleQuoted_loop.simps [of U tok l buf] by (simp add: Let_def)
  from assms nt show "scanTripleQuoted_loop U tok l buf = Inl (InvalidEscapeTriple (line l))"
    unfolding scanTripleQuoted_loop.simps [of U tok l buf] by (simp add: Let_def)
qed

text \<open>
  C5, as the code has it. A text that holds a noncharacter or an unassigned code point never
  parses: the parse returns an error. The error is of the forbidden-character kind where
  the scanner tests the code point itself (where a token starts, in a comment, in a
  single- or triple-quoted argument); after a backslash the code point is an invalid
  escape, and an error met earlier in the text is the one returned.
\<close>

theorem forbidden_code_point_fails:
  "(tables_ok U \<and> r \<in> set s \<and> (noncharacter r \<or> unassigned U r) \<longrightarrow>
      (\<exists>e. parse U s = Some (Inl e)) \<and> (\<forall>n cu. parse_text n U s \<noteq> Some (Inr cu)))
   \<and> (tables_ok U \<and> (noncharacter r \<or> unassigned U r) \<longrightarrow> IsForbidden U r)
   \<and> ((pos l \<noteq> 0 \<or> ValidateUTF8 (input l)) \<and> pos (tokenStart l) < length (input (tokenStart l))
        \<and> IsForbidden U (peek (tokenStart l)) \<and> peek (tokenStart l) \<noteq> 0x1A \<longrightarrow>
        NextToken U l = Inl (ForbiddenCharacter (line (tokenStart l)) (column (tokenStart l))))
   \<and> (pos l < length (input l) \<and> IsForbidden U (peek l) \<longrightarrow>
        scanComment_loop U l = Inl (ForbiddenInComment (line l))
        \<and> scanSingleQuoted_loop U tok l buf = Inl (ForbiddenInString (line l))
        \<and> scanTripleQuoted_loop U tok l buf = Inl (ForbiddenInString (line l)))
   \<and> (pos l < length (input l) \<and> peek l = 0x5C \<and> IsForbidden U (peek (snd (advance l))) \<longrightarrow>
        scanSimpleArgument_loop U tok l buf = Inl (InvalidEscapeSequence (line l) (column l + 1))
        \<and> scanSingleQuoted_loop U tok l buf = Inl (InvalidEscapeQuoted (line l))
        \<and> scanTripleQuoted_loop U tok l buf = Inl (InvalidEscapeTriple (line l)))"
proof (intro conjI impI)
  assume a: "tables_ok U \<and> r \<in> set s \<and> (noncharacter r \<or> unassigned U r)"
  then have f: "IsForbidden U r"
    by (auto simp: tables_ok_def intro: noncharacter_forbidden unassigned_forbidden)
  from a have z: "r \<noteq> 0x1A"
    by (auto simp: noncharacter_def unassigned_def unicode_Cc_def)
  have no: "parse_text n U s \<noteq> Some (Inr cu)" for n cu
  proof
    assume "parse_text n U s = Some (Inr cu)"
    with a parse_text_consumed obtain l where l: "input l = s" "consumed_ok U l" "at_end l"
      by blast
    from a obtain i where i: "i < length s" "s ! i = r" by (auto simp: in_set_conv_nth)
    show False
    proof (cases "i < pos l")
      case True
      with l i f show False by (auto simp: consumed_ok_def)
    next
      case False
      with l i have "i = pos l" "input l ! pos l = 0x1A" by (auto simp: at_end_def)
      with l i z show False by simp
    qed
  qed
  then show "\<forall>n cu. parse_text n U s \<noteq> Some (Inr cu)" by blast
  from parse_text_enough_fuel [of s "2 * length s + 1" U]
  obtain x where x: "parse_text (2 * length s + 1) U s = Some x" by auto
  show "\<exists>e. parse U s = Some (Inl e)"
  proof (cases x)
    case (Inl e)
    with x show ?thesis by (auto simp: parse_def)
  next
    case (Inr cu)
    with x no show ?thesis by blast
  qed
next
  assume "tables_ok U \<and> (noncharacter r \<or> unassigned U r)"
  then show "IsForbidden U r"
    by (auto simp: tables_ok_def intro: noncharacter_forbidden unassigned_forbidden)
next
  assume a: "(pos l \<noteq> 0 \<or> ValidateUTF8 (input l)) \<and> pos (tokenStart l) < length (input (tokenStart l))
        \<and> IsForbidden U (peek (tokenStart l)) \<and> peek (tokenStart l) \<noteq> 0x1A"
  then show "NextToken U l = Inl (ForbiddenCharacter (line (tokenStart l)) (column (tokenStart l)))"
    unfolding NextToken_def skipBOM_def [symmetric] Let_def tokenStart_def [symmetric]
    by auto
next
  assume a: "pos l < length (input l) \<and> IsForbidden U (peek l)"
  then have nt: "\<not> IsLineTerminator (peek l)" "peek l \<noteq> 0x22" "peek l \<noteq> 0x5C"
    using terminator_allowed [of "peek l" U] quote_allowed [of U] backslash_allowed [of U]
    by auto
  from a nt show "scanComment_loop U l = Inl (ForbiddenInComment (line l))"
    by (subst scanComment_loop.simps) simp
  from a nt show "scanSingleQuoted_loop U tok l buf = Inl (ForbiddenInString (line l))"
    by (subst scanSingleQuoted_loop.simps) simp
  from a nt show "scanTripleQuoted_loop U tok l buf = Inl (ForbiddenInString (line l))"
    by (subst scanTripleQuoted_loop.simps) simp
next
  assume a: "pos l < length (input l) \<and> peek l = 0x5C \<and> IsForbidden U (peek (snd (advance l)))"
  then show "scanSimpleArgument_loop U tok l buf
      = Inl (InvalidEscapeSequence (line l) (column l + 1))"
    by (intro escaped_forbidden) simp_all
  from a show "scanSingleQuoted_loop U tok l buf = Inl (InvalidEscapeQuoted (line l))"
    by (intro escaped_forbidden) simp_all
  from a show "scanTripleQuoted_loop U tok l buf = Inl (InvalidEscapeTriple (line l))"
    by (intro escaped_forbidden) simp_all
qed

text \<open>A table in which U+FEFF is the one format character above Latin-1.\<close>

definition BOM_tables :: unicode_tables where
  "BOM_tables = \<lparr>CfRanges = (\<lambda>r. r = 0xFEFF), PrintRanges = (\<lambda>r. False)\<rparr>"

theorem forbidden_code_point_fails_witness:
  "parse BOM_tables (str ''a # '' @ [0xFFFE]) = Some (Inl (ForbiddenInComment 1))
   \<and> IsForbidden BOM_tables 0xFFFE
   \<and> NextToken BOM_tables \<lparr>input = str ''a '' @ [0xFDD0], pos = 1, line = 1, column = 2\<rparr>
       = Inl (ForbiddenCharacter 1 3)
   \<and> scanSingleQuoted_loop BOM_tables \<lparr>Type = TokenArgument, Value = [], Line = 1, Column = 1\<rparr>
        \<lparr>input = str ''\"'' @ [0x0378], pos = 1, line = 1, column = 2\<rparr> []
       = Inl (ForbiddenInString 1)
   \<and> scanTripleQuoted_loop BOM_tables \<lparr>Type = TokenArgument, Value = [], Line = 1, Column = 1\<rparr>
        \<lparr>input = str ''\"\"\"'' @ [0x5C, 0xFFFE], pos = 3, line = 1, column = 4\<rparr> []
       = Inl (InvalidEscapeTriple 1)"
proof -
  let ?t = "\<lparr>input = str ''\"\"\"'' @ [0x5C, 0xFFFE], pos = 3, line = 1, column = 4\<rparr>"
  let ?s = "str ''a # '' @ [0xFFFE]"
  let ?l = "\<lparr>input = str ''a '' @ [0xFDD0], pos = 1, line = 1, column = 2\<rparr>"
  let ?m = "\<lparr>input = str ''a '' @ [0xFDD0], pos = 2, line = 1, column = 3\<rparr>"
  let ?q = "\<lparr>input = str ''\"'' @ [0x0378], pos = 1, line = 1, column = 2\<rparr>"
  have nc: "noncharacter r \<Longrightarrow> r \<noteq> 0xFEFF" for r
    by (auto simp: noncharacter_def)
  have ok: "tables_ok BOM_tables"
    using nc by (auto simp: tables_ok_def BOM_tables_def)
  have h1: "tables_ok BOM_tables \<and> 0xFFFE \<in> set ?s
      \<and> (noncharacter 0xFFFE \<or> unassigned BOM_tables 0xFFFE)"
    using ok by (simp add: noncharacter_def)
  have h2: "tables_ok BOM_tables \<and> (noncharacter 0xFFFE \<or> unassigned BOM_tables 0xFFFE)"
    using ok by (simp add: noncharacter_def)
  have ts: "tokenStart ?l = ?m"
    by (simp add: tokenStart_def skipBOM_def run)
  have f1: "IsForbidden BOM_tables 0xFDD0" by (simp add: char_defs BOM_tables_def)
  have h3: "(pos ?l \<noteq> 0 \<or> ValidateUTF8 (input ?l)) \<and> pos (tokenStart ?l) < length (input (tokenStart ?l))
        \<and> IsForbidden BOM_tables (peek (tokenStart ?l)) \<and> peek (tokenStart ?l) \<noteq> 0x1A"
    unfolding ts using f1 by (simp add: str_def peek_def)
  have f2: "IsForbidden BOM_tables 0x0378" by (simp add: char_defs BOM_tables_def)
  have h4: "pos ?q < length (input ?q) \<and> IsForbidden BOM_tables (peek ?q)"
    using f2 by (simp add: str_def peek_def)
  have f3: "IsForbidden BOM_tables 0xFFFE" by (simp add: char_defs BOM_tables_def)
  have h5: "pos ?t < length (input ?t) \<and> peek ?t = 0x5C
      \<and> IsForbidden BOM_tables (peek (snd (advance ?t)))"
    using f3 by (simp add: str_def peek_def advance_def)
  have e: "parse BOM_tables ?s = Some (Inl (ForbiddenInComment 1))"
    by (simp add: run BOM_tables_def)
  from forbidden_code_point_fails [where U = BOM_tables and r = "0xFFFE" and s = ?s,
      THEN conjunct1, rule_format, OF h1]
    forbidden_code_point_fails [where U = BOM_tables and r = "0xFFFE",
      THEN conjunct2, THEN conjunct1, rule_format, OF h2]
    forbidden_code_point_fails [where U = BOM_tables and l = ?l,
      THEN conjunct2, THEN conjunct2, THEN conjunct1, rule_format, OF h3]
    forbidden_code_point_fails [where U = BOM_tables and l = ?q,
      THEN conjunct2, THEN conjunct2, THEN conjunct2, THEN conjunct1, rule_format, OF h4]
    forbidden_code_point_fails [where U = BOM_tables and l = ?t,
      THEN conjunct2, THEN conjunct2, THEN conjunct2, THEN conjunct2, rule_format, OF h5,
      THEN conjunct2, THEN conjunct2]
    e
  show ?thesis unfolding ts by simp
qed

text \<open>
  The claim as it is worded fails on a noncharacter behind an unmatched right brace: the
  parse stops at the brace, and the error is not a forbidden-character error.
\<close>

theorem forbidden_code_point_counterexample:
  "parse BOM_tables (str ''}'' @ [0xFFFE]) = Some (Inl (UnmatchedRightBrace 1))
   \<and> kind_of (UnmatchedRightBrace 1) = UnmatchedBrace
   \<and> noncharacter 0xFFFE"
  by (simp add: run noncharacter_def)


lemma less_than_arg: "IsArgumentChar U 0x3C"
  by (simp add: char_defs)

lemma scanSimpleArgument_loop_run:
  "(\<forall>i < k. pos l + i < length (input l) \<and> input l ! (pos l + i) = 0x3C) \<Longrightarrow>
   scanSimpleArgument_loop U tok l buf
     = scanSimpleArgument_loop U tok (l\<lparr>pos := pos l + k, column := column l + k\<rparr>)
         (buf @ replicate k 0x3C)"
proof (induction k arbitrary: l buf)
  case 0
  show ?case by simp
next
  case (Suc k)
  from Suc.prems have p: "pos l < length (input l)" "peek l = 0x3C"
    by (auto simp: peek_def dest: spec [of _ 0])
  let ?l1 = "snd (advance l)"
  from p have l1: "?l1 = l\<lparr>pos := pos l + 1, column := column l + 1\<rparr>"
    by (simp add: advance_def)
  have "\<forall>i < k. pos ?l1 + i < length (input ?l1) \<and> input ?l1 ! (pos ?l1 + i) = 0x3C"
    using Suc.prems unfolding l1 by (auto dest: spec [of _ "Suc i" for i])
  from Suc.IH [OF this, of "buf @ [0x3C]"]
  have "scanSimpleArgument_loop U tok ?l1 (buf @ [0x3C])
        = scanSimpleArgument_loop U tok (l\<lparr>pos := pos l + Suc k, column := column l + Suc k\<rparr>)
            (buf @ replicate (Suc k) 0x3C)"
    unfolding l1 by (simp add: replicate_app_Cons_same)
  moreover from p have "scanSimpleArgument_loop U tok l buf
        = scanSimpleArgument_loop U tok ?l1 (buf @ [0x3C])"
    by (subst scanSimpleArgument_loop.simps) (simp add: less_than_arg)
  ultimately show ?case by simp
qed

lemma scanSimpleArgument_loop_value:
  "scanSimpleArgument_loop U tok l buf = Inr (t, l') \<Longrightarrow> buf \<noteq> [] \<Longrightarrow>
   Type t = Type tok \<and> (\<exists>w. Value t = buf @ w)"
proof (induction U tok l buf rule: scanSimpleArgument_loop.induct)
  case (1 U tok l buf)
  from "1.prems" show ?case
    apply (subst (asm) scanSimpleArgument_loop.simps)
    using "1.IH" by (auto simp: Let_def split: if_splits) blast+
qed


text \<open>The number of \<open><\<close> characters that a text starts with.\<close>

definition lead :: "gostring \<Rightarrow> nat" where
  "lead t = length (takeWhile (\<lambda>c. c = 0x3C) t)"

lemma lead_nth: "i < lead t \<Longrightarrow> i < length t \<and> t ! i = 0x3C"
proof -
  assume i: "i < lead t"
  then have "takeWhile (\<lambda>c. c = 0x3C) t ! i = t ! i"
    unfolding lead_def by (rule takeWhile_nth)
  moreover have "takeWhile (\<lambda>c. c = 0x3C) t ! i \<in> set (takeWhile (\<lambda>c. c = 0x3C) t)"
    using i unfolding lead_def by (rule nth_mem)
  ultimately have "t ! i = 0x3C" by (auto dest: set_takeWhileD)
  moreover have "lead t \<le> length t" unfolding lead_def by (rule length_takeWhile_le)
  ultimately show ?thesis using i by simp
qed

lemma lead_replicate: "k \<le> lead (replicate k 0x3C @ z)"
  unfolding lead_def by (subst takeWhile_append2) simp_all

lemma NextToken_less_than:
  assumes "peek l = 0x3C" "pos l < length (input l)" "NextToken U l = Inr (tok, l')"
  shows "scanSimpleArgument_loop U (makeToken l TokenArgument []) l [] = Inr (tok, l')"
proof -
  have b: "skipBOM l = l"
    using assms(1,2) by (cases "input l") (auto simp: skipBOM_def peek_def)
  have w: "skipWhitespace l = l"
    using assms(1,2) by (subst skipWhitespace.simps) (simp add: char_defs)
  have ts: "tokenStart l = l" by (simp add: tokenStart_def b w)
  have c: "\<not> IsForbidden U 0x3C" "\<not> IsLineTerminator 0x3C" "IsArgumentChar U 0x3C"
    by (simp_all add: char_defs)
  from assms c show ?thesis
    unfolding NextToken_def skipBOM_def [symmetric] Let_def tokenStart_def [symmetric] ts
    by (simp add: scanSimpleArgument_def split: if_splits)
qed

lemma first_token:
  assumes t: "t \<noteq> []" "hd t = 0x3C" and np: "NewParser U t = Inr p0"
  shows "Type (current p0) = TokenArgument
         \<and> (\<exists>w. Value (current p0) = replicate (lead t) 0x3C @ w)"
proof -
  define l where "l = NewLexer t"
  let ?tok = "makeToken l TokenArgument []"
  let ?p = "\<lparr>lexer = l, current = \<lparr>Type = TokenEOF, Value = [], Line = 0, Column = 0\<rparr>\<rparr>"
  from t obtain cs where tc: "t = 0x3C # cs" by (cases t) auto
  have k: "0 < lead t" unfolding tc lead_def by simp
  have l: "pos l = 0" "input l = t" "peek l = 0x3C" "pos l < length (input l)"
    by (simp_all add: l_def NewLexer_def peek_def tc)
  from np have pa: "Parser_advance U ?p = Inr p0" by (simp add: NewParser_def l_def)
  then obtain tok l' where nt: "NextToken U l = Inr (tok, l')"
    by (subst (asm) Parser_advance.simps) (auto split: sum.splits)
  from NextToken_less_than [OF l(3,4) nt]
  have "scanSimpleArgument_loop U ?tok l [] = Inr (tok, l')" .
  moreover have "scanSimpleArgument_loop U ?tok l []
     = scanSimpleArgument_loop U ?tok (l\<lparr>pos := pos l + lead t, column := column l + lead t\<rparr>)
         ([] @ replicate (lead t) 0x3C)"
    by (rule scanSimpleArgument_loop_run) (simp add: l lead_nth)
  ultimately have "scanSimpleArgument_loop U ?tok
       (l\<lparr>pos := pos l + lead t, column := column l + lead t\<rparr>) (replicate (lead t) 0x3C)
     = Inr (tok, l')" by simp
  from scanSimpleArgument_loop_value [OF this] k
  have ty: "Type tok = TokenArgument" and v: "\<exists>w. Value tok = replicate (lead t) 0x3C @ w"
    by (simp_all add: makeToken_def)
  from pa nt ty have "p0 = ?p\<lparr>lexer := l', current := tok\<rparr>"
    by (subst (asm) Parser_advance.simps) simp
  with ty v show ?thesis by simp
qed

lemma parseArguments_loop_prefix:
  "parseArguments_loop U p args = Inr (args', p') \<Longrightarrow> \<exists>more. args' = args @ more"
proof (induction U p args rule: parseArguments_loop.induct)
  case (1 U p args)
  from "1.prems" show ?case
    apply (subst (asm) parseArguments_loop.simps)
    using "1.IH" by (auto split: if_splits sum.splits)
qed

lemma parseArguments_first:
  "Type (current p) = TokenArgument \<Longrightarrow> parseArguments U p = Inr (args, p') \<Longrightarrow>
   \<exists>more. args = Value (current p) # more"
  unfolding parseArguments_def
  apply (subst (asm) parseArguments_loop.simps)
  apply (auto split: sum.splits dest!: parseArguments_loop_prefix)
  done

lemma parseDirectives_prefix:
  "parseDirectives n U b p ds = Some (Inr (ds', p')) \<Longrightarrow> \<exists>more. ds' = ds @ more"
proof (induction n arbitrary: p ds)
  case 0
  then show ?case by simp
next
  case (Suc n)
  from Suc.prems show ?case
  proof (cases rule: parseDirectives_SucE)
    case (newline p1)
    with Suc.IH show ?thesis by blast
  next
    case (directive d p1)
    with Suc.IH [of p1 "ds @ [d]"] show ?thesis by auto
  qed simp_all
qed

lemma parseDirective_arguments:
  "parseDirective n U p = Some (Inr (d, p')) \<Longrightarrow> \<exists>p1. parseArguments U p = Inr (Arguments d, p1)"
proof (cases n)
  case 0
  assume "parseDirective n U p = Some (Inr (d, p'))"
  with 0 show ?thesis by simp
next
  case (Suc k)
  assume "parseDirective n U p = Some (Inr (d, p'))"
  then have "parseDirective (Suc k) U p = Some (Inr (d, p'))" using Suc by simp
  then show ?thesis by (cases rule: parseDirective_SucE) auto
qed

lemma parseDirectives_first:
  assumes "Type (current p) = TokenArgument"
    and "parseDirectives n U b p [] = Some (Inr (ds', p'))"
  shows "\<exists>args subs rest. ds' = Directive (Value (current p) # args) subs # rest"
proof (cases n)
  case 0
  with assms show ?thesis by simp
next
  case (Suc k)
  with assms have "parseDirectives (Suc k) U b p [] = Some (Inr (ds', p'))" by simp
  then show ?thesis
  proof (cases rule: parseDirectives_SucE)
    case (newline p1)
    with assms show ?thesis by simp
  next
    case eof
    with assms show ?thesis by simp
  next
    case rbrace
    with assms show ?thesis by simp
  next
    case (directive d p1)
    from parseDirective_arguments [OF directive(4)] parseArguments_first [OF assms(1)]
    obtain more where "Arguments d = Value (current p) # more" by blast
    then have "d = Directive (Value (current p) # more) (Subdirectives d)" by (cases d) simp
    moreover from parseDirectives_prefix [OF directive(5)] obtain rest where "ds' = d # rest"
      by auto
    ultimately show ?thesis by blast
  qed
qed

lemma render_first:
  "\<exists>z. render (ConfigurationUnit (Directive (v # args) subs # rest)) = 0x3C # v @ z"
  by (cases args) (simp_all add: render_def str_def)

lemma reparse_differs:
  assumes t: "t \<noteq> []" "hd t = 0x3C" and p: "parse_text m U t = Some (Inr cu')"
  shows "render cu' \<noteq> t"
proof
  assume eq: "render cu' = t"
  from p obtain p0 ds p' where np: "NewParser U t = Inr p0"
    and pd: "parseDirectives m U False p0 [] = Some (Inr (ds, p'))"
    and cu': "cu' = ConfigurationUnit ds"
    by (auto simp: parse_text_def Parse_def split: sum.splits option.splits prod.splits)
  from first_token [OF t np] obtain w where ty: "Type (current p0) = TokenArgument"
    and v: "Value (current p0) = replicate (lead t) 0x3C @ w" by blast
  from parseDirectives_first [OF ty pd] obtain args subs rest
    where "ds = Directive (Value (current p0) # args) subs # rest" by blast
  with render_first [of "Value (current p0)" args subs rest] cu' eq v
  obtain z where "t = 0x3C # (replicate (lead t) 0x3C @ w) @ z" by auto
  then have "t = replicate (Suc (lead t)) 0x3C @ (w @ z)" by simp
  with lead_replicate [of "Suc (lead t)" "w @ z"] show False by simp
qed


lemma parse_text_empty: "parse_text m U [] = Some (Inr cu') \<Longrightarrow> cu' = ConfigurationUnit []"
  by (cases m) (simp_all add: run)

text \<open>
  C8, as the code has it. The rendering is a diagnostic form, not a text of the language: it
  wraps every argument in angle brackets, and \<open><\<close> is an ordinary argument character.
  So when a text parses and its rendering parses again, the second rendering equals the
  first exactly when the tree has no directive (both are then empty); a tree with a
  directive never renders to a fixed point of parsing and rendering.
\<close>

theorem round_trip_rendering:
  "parse_text n U s = Some (Inr cu)
   \<and> parse_text m U (ConfigurationUnit_String cu) = Some (Inr cu') \<longrightarrow>
   (ConfigurationUnit_String cu' = ConfigurationUnit_String cu) = (Directives cu = [])"
proof
  assume a: "parse_text n U s = Some (Inr cu)
   \<and> parse_text m U (ConfigurationUnit_String cu) = Some (Inr cu')"
  have r: "ConfigurationUnit_String c = render c" for c
    by (simp add: ConfigurationUnit_String_def render_def printDirectives_eq)
  show "(ConfigurationUnit_String cu' = ConfigurationUnit_String cu) = (Directives cu = [])"
  proof (cases "Directives cu")
    case Nil
    then have e: "ConfigurationUnit_String cu = []" by (simp add: r render_def)
    with a have "parse_text m U [] = Some (Inr cu')" by simp
    then have "cu' = ConfigurationUnit []" by (rule parse_text_empty)
    with e Nil show ?thesis by (simp add: r render_def)
  next
    case (Cons d ds)
    from a obtain p ds' p' where "parseDirectives n U False p [] = Some (Inr (ds', p'))"
      "cu = ConfigurationUnit ds'"
      by (auto simp: parse_text_def Parse_def split: sum.splits option.splits prod.splits)
    moreover have "list_all has_arguments ([]::Directive list)" by simp
    ultimately have "list_all has_arguments (Directives cu)"
      using parser_has_arguments [of n] by (metis ConfigurationUnit.sel)
    with Cons have "has_arguments d" by simp
    then obtain v args subs where d: "d = Directive (v # args) subs"
      by (cases d; cases "Arguments d") auto
    from Cons d have "cu = ConfigurationUnit (Directive (v # args) subs # ds)" by (cases cu) simp
    with render_first [of v args subs ds] obtain z where "render cu = 0x3C # v @ z" by auto
    then have "render cu \<noteq> []" "hd (render cu) = 0x3C" by simp_all
    moreover from a have "parse_text m U (render cu) = Some (Inr cu')" by (simp add: r)
    ultimately have "render cu' \<noteq> render cu" by (rule reparse_differs)
    with Cons show ?thesis by (simp add: r)
  qed
qed

theorem round_trip_rendering_witness:
  "parse_text 3 Latin1 (str ''a'') = Some (Inr (ConfigurationUnit [Directive [str ''a''] []]))
   \<and> parse_text 9 Latin1 (ConfigurationUnit_String (ConfigurationUnit [Directive [str ''a''] []]))
       = Some (Inr (ConfigurationUnit [Directive [str ''<a>''] []]))
   \<and> (ConfigurationUnit_String (ConfigurationUnit [Directive [str ''<a>''] []])
        = ConfigurationUnit_String (ConfigurationUnit [Directive [str ''a''] []]))
       = (Directives (ConfigurationUnit [Directive [str ''a''] []]) = [])"
proof -
  let ?cu = "ConfigurationUnit [Directive [str ''a''] []]"
  let ?cu' = "ConfigurationUnit [Directive [str ''<a>''] []]"
  have s: "ConfigurationUnit_String ?cu = str ''<a>'' @ [0x0A]"
    by (simp add: ConfigurationUnit_String_def printDirectives_eq str_def)
  have h: "parse_text 3 Latin1 (str ''a'') = Some (Inr ?cu)
   \<and> parse_text 9 Latin1 (ConfigurationUnit_String ?cu) = Some (Inr ?cu')"
    unfolding s by (simp add: run)
  from round_trip_rendering [where n = 3 and U = Latin1 and s = "str ''a''" and cu = ?cu
      and m = 9 and cu' = ?cu', rule_format, OF h] h
  show ?thesis by simp
qed

text \<open>
  The claim as it is worded fails on the text \<open>a\<close>: it renders to \<open><a>\<close>, which parses to
  the one argument \<open><a>\<close> and renders to \<open><<a>>\<close>.
\<close>

theorem round_trip_counterexample:
  "parse Latin1 (str ''a'') = Some (Inr (ConfigurationUnit [Directive [str ''a''] []]))
   \<and> ConfigurationUnit_String (ConfigurationUnit [Directive [str ''a''] []]) = str ''<a>'' @ [0x0A]
   \<and> parse Latin1 (str ''<a>'' @ [0x0A])
       = Some (Inr (ConfigurationUnit [Directive [str ''<a>''] []]))
   \<and> ConfigurationUnit_String (ConfigurationUnit [Directive [str ''<a>''] []])
       = str ''<<a>>'' @ [0x0A]
   \<and> str ''<<a>>'' @ [0x0A] \<noteq> str ''<a>'' @ [0x0A]"
proof -
  have 1: "ConfigurationUnit_String (ConfigurationUnit [Directive [str ''a''] []]) = str ''<a>'' @ [0x0A]"
    by (simp add: ConfigurationUnit_String_def printDirectives_eq str_def)
  have 2: "ConfigurationUnit_String (ConfigurationUnit [Directive [str ''<a>''] []])
       = str ''<<a>>'' @ [0x0A]"
    by (simp add: ConfigurationUnit_String_def printDirectives_eq str_def)
  have 3: "parse Latin1 (str ''a'') = Some (Inr (ConfigurationUnit [Directive [str ''a''] []]))"
    by (simp add: run)
  have 4: "parse Latin1 (str ''<a>'' @ [0x0A])
       = Some (Inr (ConfigurationUnit [Directive [str ''<a>''] []]))"
    by (simp add: run)
  have 5: "str ''<<a>>'' @ [0x0A] \<noteq> str ''<a>'' @ [0x0A]" by (simp add: str_def)
  from 1 2 3 4 5 show ?thesis by blast
qed


text \<open>What is left of the input at the cursor.\<close>

definition rest :: "Lexer \<Rightarrow> gostring" where
  "rest l = drop (pos l) (input l)"

lemma rest_Nil: "(rest l = []) = (length (input l) \<le> pos l)"
  by (simp add: rest_def)

lemma pos_lt_rest: "(pos l < length (input l)) = (rest l \<noteq> [])"
  by (auto simp: rest_def)

lemma peek_rest: "peek l = (if rest l = [] then 0 else hd (rest l))"
  by (auto simp: peek_def rest_def hd_drop_conv_nth)

lemma rest_advance [simp]: "rest (snd (advance l)) = tl (rest l)"
  by (auto simp: advance_def rest_def drop_Suc tl_drop)

lemma column_advance: "column (snd (advance l)) = (if rest l = [] then column l else column l + 1)"
  by (auto simp: advance_def rest_def)

lemma pos_advance_0: "(pos (snd (advance l)) = 0) = (pos l = 0 \<and> rest l = [])"
  by (auto simp: advance_def rest_def)

lemma rest_line [simp]: "rest (l\<lparr>line := a, column := b\<rparr>) = rest l"
  by (simp add: rest_def)


lemma scanComment_loop_forbidden:
  "\<exists>c \<in> set (takeWhile (\<lambda>c. \<not> IsLineTerminator c) (rest l)). IsForbidden U c \<Longrightarrow>
   scanComment_loop U l = Inl (ForbiddenInComment (line l))"
proof (induction U l rule: scanComment_loop.induct)
  case (1 U l)
  from "1.prems" obtain c cs where r: "rest l = c # cs" by (cases "rest l") auto
  then have p: "pos l < length (input l)" "peek l = c" by (simp_all add: pos_lt_rest peek_rest)
  from "1.prems" r have nt: "\<not> IsLineTerminator c" by (cases "IsLineTerminator c") auto
  show ?case
  proof (cases "IsForbidden U c")
    case True
    with p nt show ?thesis unfolding scanComment_loop.simps [of U l] by simp
  next
    case False
    with "1.prems" r nt
    have "\<exists>c \<in> set (takeWhile (\<lambda>c. \<not> IsLineTerminator c) (rest (snd (advance l)))). IsForbidden U c"
      by auto
    with "1.IH" [of c] p nt False
    have "scanComment_loop U (snd (advance l)) = Inl (ForbiddenInComment (line l))" by simp
    with p nt False show ?thesis unfolding scanComment_loop.simps [of U l] by simp
  qed
qed

lemma parse_fails:
  assumes "\<And>n cu. parse_text n U s \<noteq> Some (Inr cu)"
  shows "\<exists>e. parse U s = Some (Inl e)"
proof -
  from parse_text_enough_fuel [of s "2 * length s + 1" U]
  obtain x where x: "parse_text (2 * length s + 1) U s = Some x" by auto
  with assms show ?thesis by (cases x) (auto simp: parse_def)
qed

lemma control_Z_not_last:
  assumes t: "tables_ok U" and i: "i + 1 < length s" "s ! i = 0x1A"
  shows "parse_text n U s \<noteq> Some (Inr cu)"
proof
  assume "parse_text n U s = Some (Inr cu)"
  with t parse_text_consumed obtain l where l: "input l = s" "consumed_ok U l" "at_end l"
    by blast
  show False
  proof (cases "i < pos l")
    case True
    with l i ctrlZ_forbidden [of U] show False by (auto simp: consumed_ok_def)
  next
    case False
    with l i show False by (auto simp: at_end_def)
  qed
qed

text \<open>
  C6, as the code has it. A Control-Z met where a token starts is the end of input when it is
  the last character of the buffer and a forbidden-character error otherwise; a text with a
  Control-Z anywhere but in the last position never parses. Elsewhere the Control-Z is an
  error also as the last character: anywhere in a comment it is the "forbidden character in
  comment" error, where the scanner of a single- or triple-quoted argument comes to it the
  "forbidden character in string" error, and right after a backslash, in an unquoted or a
  quoted argument, an invalid escape.
\<close>

theorem control_Z_at_token_start:
  "((pos l \<noteq> 0 \<or> ValidateUTF8 (input l))
      \<and> pos (tokenStart l) < length (input (tokenStart l)) \<and> peek (tokenStart l) = 0x1A \<longrightarrow>
     NextToken U l =
       (if pos (tokenStart l) + 1 = length (input (tokenStart l))
        then Inr (makeToken (tokenStart l) TokenEOF [], tokenStart l)
        else Inl (ForbiddenCharacter (line (tokenStart l)) (column (tokenStart l)))))
   \<and> (tables_ok U \<and> i + 1 < length s \<and> s ! i = 0x1A \<longrightarrow>
        (\<exists>e. parse U s = Some (Inl e)) \<and> (\<forall>n cu. parse_text n U s \<noteq> Some (Inr cu)))
   \<and> (0x1A \<in> set (takeWhile (\<lambda>c. \<not> IsLineTerminator c) (rest l)) \<longrightarrow>
        scanComment_loop U l = Inl (ForbiddenInComment (line l)))
   \<and> (pos l < length (input l) \<and> peek l = 0x1A \<longrightarrow>
        scanComment_loop U l = Inl (ForbiddenInComment (line l))
        \<and> scanSingleQuoted_loop U tok l buf = Inl (ForbiddenInString (line l))
        \<and> scanTripleQuoted_loop U tok l buf = Inl (ForbiddenInString (line l)))
   \<and> (pos l < length (input l) \<and> peek l = 0x5C \<and> peek (snd (advance l)) = 0x1A \<longrightarrow>
        scanSimpleArgument_loop U tok l buf = Inl (InvalidEscapeSequence (line l) (column l + 1))
        \<and> scanSingleQuoted_loop U tok l buf = Inl (InvalidEscapeQuoted (line l))
        \<and> scanTripleQuoted_loop U tok l buf = Inl (InvalidEscapeTriple (line l)))
   \<and> parse U (str ''a'' @ [0x1A]) = Some (Inr (ConfigurationUnit [Directive [str ''a''] []]))
   \<and> parse U ([0x1A] @ str ''a'') = Some (Inl (ForbiddenCharacter 1 1))
   \<and> parse U (str ''# a'' @ [0x1A]) = Some (Inl (ForbiddenInComment 1))
   \<and> parse U (str ''\"a'' @ [0x1A]) = Some (Inl (ForbiddenInString 1))
   \<and> parse U (str ''\"\"\"a'' @ [0x1A]) = Some (Inl (ForbiddenInString 1))
   \<and> parse U (str ''a'' @ [0x5C, 0x1A]) = Some (Inl (InvalidEscapeSequence 1 3))
   \<and> parse U (str ''\"a'' @ [0x5C, 0x1A]) = Some (Inl (InvalidEscapeQuoted 1))
   \<and> parse U (str ''\"\"\"a'' @ [0x5C, 0x1A]) = Some (Inl (InvalidEscapeTriple 1))"
proof (intro conjI impI)
  assume a: "(pos l \<noteq> 0 \<or> ValidateUTF8 (input l))
      \<and> pos (tokenStart l) < length (input (tokenStart l)) \<and> peek (tokenStart l) = 0x1A"
  then have "NextToken U l =
     (if pos (tokenStart l) + 1 < length (input (tokenStart l))
      then Inl (ForbiddenCharacter (line (tokenStart l)) (column (tokenStart l)))
      else Inr (makeToken (tokenStart l) TokenEOF [], tokenStart l))"
    by (intro NextToken_ctrlZ) simp_all
  with a show "NextToken U l =
       (if pos (tokenStart l) + 1 = length (input (tokenStart l))
        then Inr (makeToken (tokenStart l) TokenEOF [], tokenStart l)
        else Inl (ForbiddenCharacter (line (tokenStart l)) (column (tokenStart l))))"
    by auto
next
  assume a: "tables_ok U \<and> i + 1 < length s \<and> s ! i = 0x1A"
  then have no: "parse_text n U s \<noteq> Some (Inr cu)" for n cu
    by (intro control_Z_not_last [of U i s]) simp_all
  then show "\<forall>n cu. parse_text n U s \<noteq> Some (Inr cu)" by blast
  from no show "\<exists>e. parse U s = Some (Inl e)" by (rule parse_fails)
next
  assume "0x1A \<in> set (takeWhile (\<lambda>c. \<not> IsLineTerminator c) (rest l))"
  with ctrlZ_forbidden [of U] show "scanComment_loop U l = Inl (ForbiddenInComment (line l))"
    by (intro scanComment_loop_forbidden) blast
next
  assume a: "pos l < length (input l) \<and> peek l = 0x1A"
  then show "scanComment_loop U l = Inl (ForbiddenInComment (line l))"
    by (simp add: scanComment_loop_ctrlZ)
  from a show "scanSingleQuoted_loop U tok l buf = Inl (ForbiddenInString (line l))"
    by (simp add: scanSingleQuoted_loop_ctrlZ)
  from a show "scanTripleQuoted_loop U tok l buf = Inl (ForbiddenInString (line l))"
    by (simp add: scanTripleQuoted_loop_ctrlZ)
next
  assume a: "pos l < length (input l) \<and> peek l = 0x5C \<and> peek (snd (advance l)) = 0x1A"
  with ctrlZ_forbidden [of U] have f: "IsForbidden U (peek (snd (advance l)))" by simp
  from a f show "scanSimpleArgument_loop U tok l buf
      = Inl (InvalidEscapeSequence (line l) (column l + 1))"
    by (intro escaped_forbidden) simp_all
  from a f show "scanSingleQuoted_loop U tok l buf = Inl (InvalidEscapeQuoted (line l))"
    by (intro escaped_forbidden) simp_all
  from a f show "scanTripleQuoted_loop U tok l buf = Inl (InvalidEscapeTriple (line l))"
    by (intro escaped_forbidden) simp_all
next
  show "parse U (str ''a'' @ [0x1A]) = Some (Inr (ConfigurationUnit [Directive [str ''a''] []]))"
    by (simp add: run)
next
  show "parse U ([0x1A] @ str ''a'') = Some (Inl (ForbiddenCharacter 1 1))"
    by (simp add: run)
next
  show "parse U (str ''# a'' @ [0x1A]) = Some (Inl (ForbiddenInComment 1))"
    by (simp add: run)
next
  show "parse U (str ''\"a'' @ [0x1A]) = Some (Inl (ForbiddenInString 1))"
    by (simp add: run)
next
  show "parse U (str ''\"\"\"a'' @ [0x1A]) = Some (Inl (ForbiddenInString 1))"
    by (simp add: run)
next
  show "parse U (str ''a'' @ [0x5C, 0x1A]) = Some (Inl (InvalidEscapeSequence 1 3))"
    by (simp add: run)
next
  show "parse U (str ''\"a'' @ [0x5C, 0x1A]) = Some (Inl (InvalidEscapeQuoted 1))"
    by (simp add: run)
next
  show "parse U (str ''\"\"\"a'' @ [0x5C, 0x1A]) = Some (Inl (InvalidEscapeTriple 1))"
    by (simp add: run)
qed

theorem control_Z_at_token_start_witness:
  "NextToken Latin1 \<lparr>input = str ''a '' @ [0x1A], pos = 1, line = 1, column = 2\<rparr>
     = Inr (\<lparr>Type = TokenEOF, Value = [], Line = 1, Column = 3\<rparr>,
            \<lparr>input = str ''a '' @ [0x1A], pos = 2, line = 1, column = 3\<rparr>)
   \<and> (\<exists>e. parse BOM_tables ([0x1A] @ str ''a'') = Some (Inl e))
   \<and> scanComment_loop Latin1 \<lparr>input = str ''#a'' @ [0x1A], pos = 1, line = 1, column = 2\<rparr>
     = Inl (ForbiddenInComment 1)
   \<and> scanSingleQuoted_loop Latin1 \<lparr>Type = TokenArgument, Value = [], Line = 1, Column = 1\<rparr>
        \<lparr>input = str ''\"'' @ [0x1A], pos = 1, line = 1, column = 2\<rparr> []
     = Inl (ForbiddenInString 1)
   \<and> scanTripleQuoted_loop Latin1 \<lparr>Type = TokenArgument, Value = [], Line = 1, Column = 1\<rparr>
        \<lparr>input = str ''\"\"\"'' @ [0x5C, 0x1A], pos = 3, line = 1, column = 4\<rparr> []
     = Inl (InvalidEscapeTriple 1)"
proof -
  let ?l = "\<lparr>input = str ''a '' @ [0x1A], pos = 1, line = 1, column = 2\<rparr>"
  let ?m = "\<lparr>input = str ''a '' @ [0x1A], pos = 2, line = 1, column = 3\<rparr>"
  let ?c = "\<lparr>input = str ''#a'' @ [0x1A], pos = 1, line = 1, column = 2\<rparr>"
  let ?q = "\<lparr>input = str ''\"'' @ [0x1A], pos = 1, line = 1, column = 2\<rparr>"
  let ?t = "\<lparr>input = str ''\"\"\"'' @ [0x5C, 0x1A], pos = 3, line = 1, column = 4\<rparr>"
  have ts: "tokenStart ?l = ?m"
    by (simp add: tokenStart_def skipBOM_def run)
  have h1: "(pos ?l \<noteq> 0 \<or> ValidateUTF8 (input ?l))
      \<and> pos (tokenStart ?l) < length (input (tokenStart ?l)) \<and> peek (tokenStart ?l) = 0x1A"
    unfolding ts by (simp add: str_def peek_def)
  have nc: "noncharacter r \<Longrightarrow> r \<noteq> 0xFEFF" for r
    by (auto simp: noncharacter_def)
  have ok: "tables_ok BOM_tables"
    using nc by (auto simp: tables_ok_def BOM_tables_def)
  have h2: "tables_ok BOM_tables \<and> 0 + 1 < length ([0x1A] @ str ''a'')
      \<and> ([0x1A] @ str ''a'') ! 0 = 0x1A"
    using ok by (simp add: str_def)
  have h3: "0x1A \<in> set (takeWhile (\<lambda>c. \<not> IsLineTerminator c) (rest ?c))"
    by (simp add: rest_def str_def IsLineTerminator_def)
  have h4: "pos ?q < length (input ?q) \<and> peek ?q = 0x1A"
    by (simp add: str_def peek_def)
  have h5: "pos ?t < length (input ?t) \<and> peek ?t = 0x5C \<and> peek (snd (advance ?t)) = 0x1A"
    by (simp add: str_def peek_def advance_def)
  from control_Z_at_token_start [where l = ?l and U = Latin1, THEN conjunct1, rule_format, OF h1]
    control_Z_at_token_start [where U = BOM_tables and i = 0 and s = "[0x1A] @ str ''a''",
      THEN conjunct2, THEN conjunct1, rule_format, OF h2, THEN conjunct1]
    control_Z_at_token_start [where l = ?c and U = Latin1, THEN conjunct2, THEN conjunct2,
      THEN conjunct1, rule_format, OF h3]
    control_Z_at_token_start [where l = ?q and U = Latin1, THEN conjunct2, THEN conjunct2,
      THEN conjunct2, THEN conjunct1, rule_format, OF h4, THEN conjunct2, THEN conjunct1]
    control_Z_at_token_start [where l = ?t and U = Latin1, THEN conjunct2, THEN conjunct2,
      THEN conjunct2, THEN conjunct2, THEN conjunct1, rule_format, OF h5,
      THEN conjunct2, THEN conjunct2]
  show ?thesis unfolding ts by (simp add: str_def makeToken_def)
qed

text \<open>
  The claim as it is worded fails on a Control-Z that ends a comment: it is the last
  character of the buffer, and the parse fails. It fails also on a Control-Z behind a
  backslash: it is not the last character, and the error is an invalid escape.
\<close>

theorem control_Z_counterexample:
  "parse Latin1 (str ''#'' @ [0x1A]) = Some (Inl (ForbiddenInComment 1))
   \<and> parse Latin1 (str ''\"'' @ [0x5C, 0x1A] @ str ''\"'') = Some (Inl (InvalidEscapeQuoted 1))
   \<and> kind_of (InvalidEscapeQuoted 1) = InvalidEscape"
  by (simp add: run Latin1_def)


section \<open>Line feeds and CR LF\<close>

text \<open>
  Replacing every lone line feed, one that does not follow a carriage return, by CR LF.
  The flag says whether the character before was a carriage return.
\<close>

fun to_crlf :: "bool \<Rightarrow> gostring \<Rightarrow> gostring" where
  "to_crlf afterCR [] = []"
| "to_crlf afterCR (c # cs) =
     (if c = 0x0A \<and> \<not> afterCR then [0x0D, 0x0A] else [c]) @ to_crlf (c = 0x0D) cs"

definition crlf :: "gostring \<Rightarrow> gostring" where
  "crlf s = to_crlf False s"

lemma crlf_Nil [simp]: "crlf [] = []"
  by (simp add: crlf_def)

lemma to_crlf_True: "cs = [] \<or> hd cs \<noteq> 0x0A \<Longrightarrow> to_crlf True cs = to_crlf False cs"
  by (cases cs) auto

lemma crlf_plain: "c \<noteq> 0x0A \<Longrightarrow> c \<noteq> 0x0D \<Longrightarrow> crlf (c # cs) = c # crlf cs"
  by (simp add: crlf_def)

lemma crlf_LF: "crlf (0x0A # cs) = 0x0D # 0x0A # crlf cs"
  by (simp add: crlf_def)

lemma crlf_CR_LF: "crlf (0x0D # 0x0A # cs) = 0x0D # 0x0A # crlf cs"
  by (simp add: crlf_def)

lemma crlf_CR: "cs = [] \<or> hd cs \<noteq> 0x0A \<Longrightarrow> crlf (0x0D # cs) = 0x0D # crlf cs"
  by (simp add: crlf_def to_crlf_True)

lemma crlf_eq_Nil [simp]: "(crlf cs = []) = (cs = [])"
  by (cases cs) (simp_all add: crlf_def)

lemma crlf_hd: "cs \<noteq> [] \<Longrightarrow> hd (crlf cs) = (if hd cs = 0x0A then 0x0D else hd cs)"
  by (cases cs) (simp_all add: crlf_def)


text \<open>More fuel does not change a result.\<close>

lemma parser_fuel_Suc:
  "(\<forall>U b p ds r. parseDirectives n U b p ds = Some r \<longrightarrow> parseDirectives (Suc n) U b p ds = Some r)
   \<and> (\<forall>U p r. parseDirective n U p = Some r \<longrightarrow> parseDirective (Suc n) U p = Some r)
   \<and> (\<forall>U p r. parseBlock n U p = Some r \<longrightarrow> parseBlock (Suc n) U p = Some r)"
proof (induction n)
  case 0
  show ?case by simp
next
  case (Suc n)
  note IHds = Suc [THEN conjunct1, rule_format]
  note IHd = Suc [THEN conjunct2, THEN conjunct1, rule_format]
  note IHb = Suc [THEN conjunct2, THEN conjunct2, rule_format]
  have ds: "parseDirectives (Suc (Suc n)) U b p ds = Some r"
    if a: "parseDirectives (Suc n) U b p ds = Some r" for U b p ds r
  proof -
    note u = parseDirectives.simps(2) [of n U b p ds]
      parseDirectives.simps(2) [of "Suc n" U b p ds]
    show ?thesis
    proof (cases "Type (current p) = TokenNewline")
      case True
      show ?thesis
      proof (cases "Parser_advance U p")
        case (Inl e)
        with a True show ?thesis unfolding u by simp
      next
        case (Inr q)
        with a True have "parseDirectives n U b q ds = Some r" unfolding u by simp
        from IHds [OF this] Inr True show ?thesis unfolding u by simp
      qed
    next
      case nl: False
      show ?thesis
      proof (cases "Type (current p) = TokenEOF \<or> Type (current p) = TokenRightBrace")
        case True
        with a nl show ?thesis unfolding u by auto
      next
        case False
        show ?thesis
        proof (cases "parseDirective n U p")
          case None
          with a nl False show ?thesis unfolding u by simp
        next
          case (Some x)
          note s' = IHd [OF Some]
          show ?thesis
          proof (cases x)
            case (Inl e)
            with a nl False Some s' show ?thesis unfolding u by simp
          next
            case (Inr dq)
            obtain d q where "dq = (d, q)" by (cases dq)
            with a nl False Some s' Inr IHds [of U b q "ds @ [d]" r] show ?thesis
              unfolding u by simp
          qed
        qed
      qed
    qed
  qed
  have bl: "parseBlock (Suc (Suc n)) U p = Some r"
    if a: "parseBlock (Suc n) U p = Some r" for U p r
  proof -
    note u = parseBlock.simps(2) [of n U p] parseBlock.simps(2) [of "Suc n" U p]
    show ?thesis
    proof (cases "Type (current p) = TokenLeftBrace")
      case False
      with a show ?thesis unfolding u by simp
    next
      case lb: True
      show ?thesis
      proof (cases "Parser_advance U p")
        case (Inl e)
        with a lb show ?thesis unfolding u by simp
      next
        case (Inr p1)
        show ?thesis
        proof (cases "parseDirectives n U True p1 []")
          case None
          with a lb Inr show ?thesis unfolding u by simp
        next
          case (Some x)
          from IHds [OF Some] a lb Inr Some show ?thesis unfolding u by simp
        qed
      qed
    qed
  qed
  have d: "parseDirective (Suc (Suc n)) U p = Some r"
    if a: "parseDirective (Suc n) U p = Some r" for U p r
  proof -
    note u = parseDirective.simps(2) [of n U p] parseDirective.simps(2) [of "Suc n" U p]
    show ?thesis
    proof (cases "parseArguments U p")
      case (Inl e)
      with a show ?thesis unfolding u by simp
    next
      case (Inr ap)
      obtain args p1 where ap: "ap = (args, p1)" by (cases ap)
      show ?thesis
      proof (cases "args = []")
        case True
        with a Inr ap show ?thesis unfolding u by simp
      next
        case ne: False
        show ?thesis
        proof (cases "skipNewlines U p1")
          case (Inl e)
          with a Inr ap ne show ?thesis unfolding u by (simp add: Let_def)
        next
          case s2: (Inr p2)
          show ?thesis
          proof (cases "Type (current p2) = TokenLeftBrace")
            case False
            with a Inr ap ne s2 show ?thesis unfolding u by (simp add: Let_def)
          next
            case lb: True
            show ?thesis
            proof (cases "parseBlock n U p2")
              case None
              with a Inr ap ne s2 lb show ?thesis unfolding u by (simp add: Let_def)
            next
              case (Some x)
              from IHb [OF Some] a Inr ap ne s2 lb Some show ?thesis
                unfolding u by (simp add: Let_def)
            qed
          qed
        qed
      qed
    qed
  qed
  from ds d bl show ?case by blast
qed

lemma parseDirectives_fuel_mono:
  "parseDirectives n U b p ds = Some r \<Longrightarrow> n \<le> m \<Longrightarrow> parseDirectives m U b p ds = Some r"
proof (induction m)
  case 0
  then show ?case by simp
next
  case (Suc m)
  show ?case
  proof (cases "n = Suc m")
    case True
    with Suc.prems show ?thesis by simp
  next
    case False
    with Suc have "parseDirectives m U b p ds = Some r" by simp
    with parser_fuel_Suc [of m] show ?thesis by blast
  qed
qed

lemma parse_text_fuel_mono:
  "parse_text n U s = Some r \<Longrightarrow> n \<le> m \<Longrightarrow> parse_text m U s = Some r"
proof (cases "NewParser U s")
  case (Inl e)
  assume "parse_text n U s = Some r"
  with Inl show ?thesis by (simp add: parse_text_def)
next
  case (Inr p)
  assume a: "parse_text n U s = Some r" "n \<le> m"
  with Inr obtain x where x: "parseDirectives n U False p [] = Some x"
    by (auto simp: parse_text_def Parse_def split: option.splits)
  from parseDirectives_fuel_mono [OF x a(2)] a(1) Inr x show ?thesis
    by (simp add: parse_text_def Parse_def)
qed

lemma parse_text_parse: "parse_text n U s = Some r \<Longrightarrow> parse U s = Some r"
proof -
  assume a: "parse_text n U s = Some r"
  from parse_text_enough_fuel [of s "2 * length s + 1" U]
  obtain x where x: "parse_text (2 * length s + 1) U s = Some x" by auto
  have "x = r"
  proof (cases "n \<le> 2 * length s + 1")
    case True
    from parse_text_fuel_mono [OF a True] x show ?thesis by simp
  next
    case False
    then have "2 * length s + 1 \<le> n" by simp
    from parse_text_fuel_mono [OF x this] a show ?thesis by simp
  qed
  with x show ?thesis by (simp add: parse_def)
qed


lemma to_crlf_append:
  "to_crlf b (xs @ ys) = to_crlf b xs @ to_crlf (if xs = [] then b else last xs = 0x0D) ys"
  by (induction xs arbitrary: b) auto

text \<open>The last character of the value collected so far is a carriage return.\<close>

definition afterCR :: "gostring \<Rightarrow> bool" where
  "afterCR buf = (buf \<noteq> [] \<and> last buf = 0x0D)"

lemma afterCR_simps [simp]: "afterCR [] = False" "afterCR (buf @ [c]) = (c = 0x0D)"
  by (simp_all add: afterCR_def)

lemma crlf_snoc:
  "crlf (buf @ [c])
     = crlf buf @ (if c = 0x0A \<and> \<not> afterCR buf then [0x0D, 0x0A] else [c])"
  by (auto simp: crlf_def to_crlf_append afterCR_def)

lemma crlf_snoc_plain: "c \<noteq> 0x0A \<Longrightarrow> crlf (buf @ [c]) = crlf buf @ [c]"
  by (simp add: crlf_snoc)

lemma to_crlf_id: "0x0A \<notin> set cs \<Longrightarrow> to_crlf b cs = cs"
  by (induction cs arbitrary: b) auto

lemma crlf_id: "0x0A \<notin> set cs \<Longrightarrow> crlf cs = cs"
  by (simp add: crlf_def to_crlf_id)

lemma to_crlf_eq_Nil [simp]: "(to_crlf b cs = []) = (cs = [])"
  by (cases cs) simp_all

lemma to_crlf_hd:
  "cs \<noteq> [] \<Longrightarrow> hd (to_crlf b cs) = (if hd cs = 0x0A \<and> \<not> b then 0x0D else hd cs)"
  by (cases cs) simp_all

text \<open>
  Two cursors, one in a text and one in the text with CR LF, at the same place: the same
  line, and what is left in the second is what is left in the first with CR LF. The columns
  are not compared: a triple-quoted argument counts every character it copies, also the
  added carriage returns.
\<close>

definition sim :: "Lexer \<Rightarrow> Lexer \<Rightarrow> bool" where
  "sim l l' = (rest l' = crlf (rest l) \<and> line l' = line l \<and> (pos l' = 0) = (pos l = 0))"

lemma sim_end: "sim l l' \<Longrightarrow> (rest l' = []) = (rest l = [])"
  by (simp add: sim_def)

lemma sim_peek: "sim l l' \<Longrightarrow> peek l' = (if peek l = 0x0A then 0x0D else peek l)"
  by (auto simp: sim_def peek_rest crlf_hd)

lemma sim_line_eq: "sim l l' \<Longrightarrow> line l' = line l"
  by (simp add: sim_def)

lemma sim_advance:
  "sim l l' \<Longrightarrow> peek l \<noteq> 0x0A \<Longrightarrow> peek l \<noteq> 0x0D \<Longrightarrow> sim (snd (advance l)) (snd (advance l'))"
proof (cases "rest l")
  case Nil
  assume "sim l l'"
  with Nil show ?thesis by (simp add: sim_def pos_advance_0)
next
  case (Cons c cs)
  assume s: "sim l l'" and "peek l \<noteq> 0x0A" "peek l \<noteq> 0x0D"
  with Cons have "c \<noteq> 0x0A" "c \<noteq> 0x0D" by (simp_all add: peek_rest)
  with Cons s show ?thesis
    by (auto simp: sim_def pos_advance_0 crlf_plain)
qed

lemma sim_line: "sim l l' \<Longrightarrow> sim (l\<lparr>line := a, column := b\<rparr>) (l'\<lparr>line := a, column := b'\<rparr>)"
  by (simp add: sim_def rest_def)

lemma sim_terminator: "sim l l' \<Longrightarrow> IsLineTerminator (peek l') = IsLineTerminator (peek l)"
  by (auto simp: sim_peek IsLineTerminator_def)

lemma sim_whitespace: "sim l l' \<Longrightarrow> IsWhitespace (peek l') = IsWhitespace (peek l)"
  by (auto simp: sim_peek IsWhitespace_def IsLineTerminator_def)

lemma sim_forbidden: "sim l l' \<Longrightarrow> IsForbidden U (peek l') = IsForbidden U (peek l)"
  by (auto simp: sim_peek IsForbidden_def unicode_White_Space_def)

lemma sim_argument: "sim l l' \<Longrightarrow> IsArgumentChar U (peek l') = IsArgumentChar U (peek l)"
  by (auto simp: sim_peek IsArgumentChar_def IsLineTerminator_def)

lemma sim_peek_eq: "sim l l' \<Longrightarrow> x \<noteq> 0x0A \<Longrightarrow> x \<noteq> 0x0D \<Longrightarrow> (peek l' = x) = (peek l = x)"
  by (auto simp: sim_peek)

lemma sim_peek_plain: "sim l l' \<Longrightarrow> \<not> IsLineTerminator (peek l) \<Longrightarrow> peek l' = peek l"
  by (auto simp: sim_peek IsLineTerminator_def)

lemma consumeTerminator_pos_0: "rest l \<noteq> [] \<Longrightarrow> pos (consumeTerminator l) \<noteq> 0"
  using consumeTerminator_pos [of l] by (simp add: pos_lt_rest)

lemma sim_consumeTerminator:
  assumes s: "sim l l'" and t: "IsLineTerminator (peek l)"
  shows "sim (consumeTerminator l) (consumeTerminator l')"
proof -
  from t have ne: "rest l \<noteq> []" by (auto simp: peek_rest IsLineTerminator_def split: if_splits)
  then obtain c cs where r: "rest l = c # cs" by (cases "rest l") auto
  then have c: "peek l = c" by (simp add: peek_rest)
  have ln: "line (consumeTerminator l') = line (consumeTerminator l)"
    using s by (simp add: consumeTerminator_def Let_def case_prod_beta sim_def)
  consider (lf) "c = 0x0A" | (crlf) cs' where "c = 0x0D" "cs = 0x0A # cs'"
    | (cr) "c = 0x0D" "cs = [] \<or> hd cs \<noteq> 0x0A" | (other) "c \<noteq> 0x0A" "c \<noteq> 0x0D"
    by (cases cs) auto
  then show ?thesis
  proof cases
    case lf
    with s r have r': "rest l' = 0x0D # 0x0A # crlf cs" by (simp add: sim_def crlf_LF)
    from r' have "rest (consumeTerminator l') = crlf cs"
      by (simp add: consumeTerminator_def Let_def case_prod_beta peek_rest)
    moreover from r lf have "rest (consumeTerminator l) = cs"
      by (simp add: consumeTerminator_def Let_def case_prod_beta peek_rest)
    moreover have "pos (consumeTerminator l') \<noteq> 0" "pos (consumeTerminator l) \<noteq> 0"
      using r r' by (simp_all add: consumeTerminator_pos_0)
    ultimately show ?thesis using ln by (simp add: sim_def)
  next
    case crlf
    with s r have r': "rest l' = 0x0D # 0x0A # crlf cs'" by (simp add: sim_def crlf_CR_LF)
    from r' have "rest (consumeTerminator l') = crlf cs'"
      by (simp add: consumeTerminator_def Let_def case_prod_beta peek_rest)
    moreover from r crlf have "rest (consumeTerminator l) = cs'"
      by (simp add: consumeTerminator_def Let_def case_prod_beta peek_rest)
    moreover have "pos (consumeTerminator l') \<noteq> 0" "pos (consumeTerminator l) \<noteq> 0"
      using r r' by (simp_all add: consumeTerminator_pos_0)
    ultimately show ?thesis using ln by (simp add: sim_def)
  next
    case cr
    with s r have r': "rest l' = 0x0D # crlf cs" by (simp add: sim_def crlf_CR)
    from cr have h: "crlf cs = [] \<or> hd (crlf cs) \<noteq> 0x0A" by (auto simp: crlf_hd)
    from r' h have "rest (consumeTerminator l') = crlf cs"
      by (auto simp: consumeTerminator_def Let_def case_prod_beta peek_rest)
    moreover from r cr have "rest (consumeTerminator l) = cs"
      by (auto simp: consumeTerminator_def Let_def case_prod_beta peek_rest)
    moreover have "pos (consumeTerminator l') \<noteq> 0" "pos (consumeTerminator l) \<noteq> 0"
      using r r' by (simp_all add: consumeTerminator_pos_0)
    ultimately show ?thesis using ln by (simp add: sim_def)
  next
    case other
    with c have p: "peek l \<noteq> 0x0A" "peek l \<noteq> 0x0D" by simp_all
    with s have p': "peek l' = peek l" by (simp add: sim_peek)
    from s have "line l' = line l" by (simp add: sim_def)
    with sim_advance [OF s p] p p' show ?thesis
      by (simp add: consumeTerminator_def Let_def case_prod_beta sim_line)
  qed
qed

text \<open>
  The same error but for the column it names, and the same token but for its column, with
  CR LF in its value.
\<close>

fun without_column :: "error \<Rightarrow> error" where
  "without_column (ForbiddenCharacter l c) = ForbiddenCharacter l 0"
| "without_column (UnexpectedCharacter r l c) = UnexpectedCharacter r l 0"
| "without_column (InvalidEscapeSequence l c) = InvalidEscapeSequence l 0"
| "without_column e = e"

definition same_error :: "error \<Rightarrow> error \<Rightarrow> bool" where
  "same_error e e' = (without_column e' = without_column e)"

definition tsim :: "Token \<Rightarrow> Token \<Rightarrow> bool" where
  "tsim t t' = (Type t' = Type t \<and> Line t' = Line t \<and> Value t' = crlf (Value t))"

lemma same_error_simps [simp]:
  "same_error e e"
  "same_error (ForbiddenCharacter l c) (ForbiddenCharacter l' c') = (l' = l)"
  "same_error (UnexpectedCharacter r l c) (UnexpectedCharacter r' l' c') = (r' = r \<and> l' = l)"
  "same_error (InvalidEscapeSequence l c) (InvalidEscapeSequence l' c') = (l' = l)"
  by (auto simp: same_error_def)

lemma same_error_kind: "same_error e e' \<Longrightarrow> kind_of e' = kind_of e"
  by (cases e; cases e') (simp_all add: same_error_def)

text \<open>The results of a scanning operation at two such cursors.\<close>

definition sim_result :: "(error + Token \<times> Lexer) \<Rightarrow> (error + Token \<times> Lexer) \<Rightarrow> bool" where
  "sim_result r r' =
     (case r of
        Inl e \<Rightarrow> (\<exists>e'. r' = Inl e' \<and> same_error e e')
      | Inr (t, l) \<Rightarrow> (\<exists>t' l'. r' = Inr (t', l') \<and> tsim t t' \<and> sim l l'))"

lemma sim_result_Inl [simp]: "sim_result (Inl e) r' = (\<exists>e'. r' = Inl e' \<and> same_error e e')"
  by (simp add: sim_result_def)

lemma sim_result_Inr [simp]:
  "sim_result (Inr (t, l)) r' = (\<exists>t' l'. r' = Inr (t', l') \<and> tsim t t' \<and> sim l l')"
  by (simp add: sim_result_def)

lemma tsim_Value:
  "Type tok' = Type tok \<Longrightarrow> Line tok' = Line tok \<Longrightarrow>
   tsim (tok\<lparr>Value := buf\<rparr>) (tok'\<lparr>Value := crlf buf\<rparr>)"
  by (simp add: tsim_def)

lemma sim_token: "sim l l' \<Longrightarrow> crlf v = v \<Longrightarrow> tsim (makeToken l typ v) (makeToken l' typ v)"
  by (simp add: makeToken_def tsim_def sim_def)

lemma whitespace_plain: "IsWhitespace c \<Longrightarrow> c \<noteq> 0x0A \<and> c \<noteq> 0x0D"
  by (auto simp: IsWhitespace_def IsLineTerminator_def split: if_splits)

lemma not_terminator_plain: "\<not> IsLineTerminator c \<Longrightarrow> c \<noteq> 0x0A \<and> c \<noteq> 0x0D"
  by (auto simp: IsLineTerminator_def)

lemma skipWhitespace_sim: "sim l l' \<Longrightarrow> sim (skipWhitespace l) (skipWhitespace l')"
proof (induction l arbitrary: l' rule: skipWhitespace.induct)
  case (1 l)
  note s = "1.prems"
  show ?case
  proof (cases "rest l \<noteq> [] \<and> IsWhitespace (peek l)")
    case True
    with s have t': "rest l' \<noteq> [] \<and> IsWhitespace (peek l')"
      by (simp add: sim_end sim_whitespace)
    from True whitespace_plain have "sim (snd (advance l)) (snd (advance l'))"
      by (intro sim_advance [OF s]) auto
    with True "1.IH" have "sim (skipWhitespace (snd (advance l))) (skipWhitespace (snd (advance l')))"
      by (simp add: pos_lt_rest)
    with True t' show ?thesis
      unfolding skipWhitespace.simps [of l] skipWhitespace.simps [of l']
      by (simp add: pos_lt_rest)
  next
    case False
    with s have f': "\<not> (rest l' \<noteq> [] \<and> IsWhitespace (peek l'))"
      by (simp add: sim_end sim_whitespace)
    from False f' s show ?thesis
      unfolding skipWhitespace.simps [of l] skipWhitespace.simps [of l']
      by (auto simp: pos_lt_rest)
  qed
qed

definition sim_cursor :: "(error + Lexer) \<Rightarrow> (error + Lexer) \<Rightarrow> bool" where
  "sim_cursor r r' =
     (case r of
        Inl e \<Rightarrow> r' = Inl e
      | Inr l \<Rightarrow> (\<exists>l'. r' = Inr l' \<and> sim l l'))"

lemma sim_cursor_Inl [simp]: "sim_cursor (Inl e) r' = (r' = Inl e)"
  by (simp add: sim_cursor_def)

lemma sim_cursor_Inr [simp]: "sim_cursor (Inr l) r' = (\<exists>l'. r' = Inr l' \<and> sim l l')"
  by (simp add: sim_cursor_def)

lemma scanComment_loop_sim:
  "sim l l' \<Longrightarrow> sim_cursor (scanComment_loop U l) (scanComment_loop U l')"
proof (induction U l arbitrary: l' rule: scanComment_loop.induct)
  case (1 U l)
  note s = "1.prems"
  note c = sim_end [OF s] sim_terminator [OF s] sim_forbidden [OF s, of U]
  show ?case
  proof (cases "rest l \<noteq> [] \<and> \<not> IsLineTerminator (peek l) \<and> \<not> IsForbidden U (peek l)")
    case True
    with not_terminator_plain have "sim (snd (advance l)) (snd (advance l'))"
      by (intro sim_advance [OF s]) auto
    with True "1.IH" [of "peek l" "snd (advance l')"]
    have "sim_cursor (scanComment_loop U (snd (advance l))) (scanComment_loop U (snd (advance l')))"
      by (simp add: pos_lt_rest)
    with True c show ?thesis
      unfolding scanComment_loop.simps [of U l] scanComment_loop.simps [of U l']
      by (simp add: pos_lt_rest Let_def)
  next
    case False
    with c s show ?thesis
      unfolding scanComment_loop.simps [of U l] scanComment_loop.simps [of U l']
      by (auto simp: pos_lt_rest Let_def sim_def)
  qed
qed

lemma scanSimpleArgument_loop_sim:
  "sim l l' \<Longrightarrow> Type tok' = Type tok \<Longrightarrow> Line tok' = Line tok \<Longrightarrow>
   sim_result (scanSimpleArgument_loop U tok l buf) (scanSimpleArgument_loop U tok' l' (crlf buf))"
proof (induction U tok l buf arbitrary: l' rule: scanSimpleArgument_loop.induct)
  case (1 U tok l buf)
  note s = "1.prems"(1) and tk = "1.prems"(2,3)
  note c = sim_end [OF s] sim_argument [OF s, of U] sim_peek_eq [OF s, of "0x5C"]
  note v = tsim_Value [OF tk, of buf]
  let ?l1 = "snd (advance l)" and ?l1' = "snd (advance l')"
  note u = scanSimpleArgument_loop.simps [of U tok l buf]
    scanSimpleArgument_loop.simps [of U tok' l' "crlf buf"]
  show ?case
  proof (cases "rest l = []")
    case True
    with c s v show ?thesis unfolding u by (simp add: pos_lt_rest)
  next
    case ne: False
    show ?thesis
    proof (cases "peek l = 0x5C")
      case bs: True
      then have s1: "sim ?l1 ?l1'" by (intro sim_advance [OF s]) simp_all
      note c1 = sim_terminator [OF s1] sim_whitespace [OF s1] sim_forbidden [OF s1, of U]
      from s1 have ln1: "line ?l1' = line ?l1" by (simp add: sim_def)
      show ?thesis
      proof (cases "IsLineTerminator (peek ?l1)")
        case True
        from sim_consumeTerminator [OF s1 True]
        have s2: "sim (skipWhitespace (consumeTerminator ?l1)) (skipWhitespace (consumeTerminator ?l1'))"
          by (rule skipWhitespace_sim)
        from True ne bs c c1 s2 sim_token [OF s2, of "[]" TokenLineContinuation] show ?thesis
          unfolding u by (simp add: pos_lt_rest Let_def)
      next
        case nt: False
        then have pp: "peek ?l1' = peek ?l1" by (rule sim_peek_plain [OF s1])
        show ?thesis
        proof (cases "\<not> IsWhitespace (peek ?l1) \<and> \<not> IsForbidden U (peek ?l1)")
          case True
          from nt not_terminator_plain have "sim (snd (advance ?l1)) (snd (advance ?l1'))"
            by (intro sim_advance [OF s1]) auto
          with ne bs nt True tk "1.IH"(1) [of "peek l" ?l1 "peek ?l1" "snd (advance ?l1')"]
          have "sim_result (scanSimpleArgument_loop U tok (snd (advance ?l1)) (buf @ [peek ?l1]))
                  (scanSimpleArgument_loop U tok' (snd (advance ?l1')) (crlf (buf @ [peek ?l1])))"
            by (simp add: pos_lt_rest)
          with True ne bs nt c c1 pp not_terminator_plain [OF nt] show ?thesis
            unfolding u by (simp add: pos_lt_rest Let_def crlf_snoc_plain)
        next
          case False
          with ne bs nt c c1 ln1 show ?thesis
            unfolding u by (auto simp: pos_lt_rest Let_def)
        qed
      qed
    next
      case nb: False
      show ?thesis
      proof (cases "IsArgumentChar U (peek l)")
        case True
        then have "\<not> IsLineTerminator (peek l)" by (auto simp: IsArgumentChar_def split: if_splits)
        then have pl: "peek l \<noteq> 0x0A \<and> peek l \<noteq> 0x0D" "peek l' = peek l"
          using not_terminator_plain sim_peek_plain [OF s] by auto
        then have "sim ?l1 ?l1'" by (intro sim_advance [OF s]) auto
        with ne nb True tk "1.IH"(2) [of "peek l" ?l1']
        have "sim_result (scanSimpleArgument_loop U tok ?l1 (buf @ [peek l]))
                (scanSimpleArgument_loop U tok' ?l1' (crlf (buf @ [peek l])))"
          by (simp add: pos_lt_rest)
        with True ne nb c pl show ?thesis
          unfolding u by (simp add: pos_lt_rest Let_def crlf_snoc_plain)
      next
        case False
        with ne nb c s v show ?thesis
          unfolding u by (simp add: pos_lt_rest Let_def)
      qed
    qed
  qed
qed

lemma scanSingleQuoted_loop_sim:
  "sim l l' \<Longrightarrow> Type tok' = Type tok \<Longrightarrow> Line tok' = Line tok \<Longrightarrow>
   sim_result (scanSingleQuoted_loop U tok l buf) (scanSingleQuoted_loop U tok' l' (crlf buf))"
proof (induction U tok l buf arbitrary: l' rule: scanSingleQuoted_loop.induct)
  case (1 U tok l buf)
  note s = "1.prems"(1) and tk = "1.prems"(2,3)
  note c = sim_end [OF s] sim_terminator [OF s] sim_forbidden [OF s, of U]
    sim_peek_eq [OF s, of "0x5C"] sim_peek_eq [OF s, of "0x22"]
  note v = tsim_Value [OF tk, of buf]
  let ?l1 = "snd (advance l)" and ?l1' = "snd (advance l')"
  note u = scanSingleQuoted_loop.simps [of U tok l buf]
    scanSingleQuoted_loop.simps [of U tok' l' "crlf buf"]
  from s have ln: "line l' = line l" by (simp add: sim_def)
  show ?case
  proof (cases "rest l = []")
    case True
    with c ln show ?thesis unfolding u by (simp add: pos_lt_rest)
  next
    case ne: False
    show ?thesis
    proof (cases "peek l = 0x22")
      case True
      then have "sim ?l1 ?l1'" by (intro sim_advance [OF s]) simp_all
      with True ne c v show ?thesis unfolding u by (simp add: pos_lt_rest Let_def)
    next
      case nq: False
      show ?thesis
      proof (cases "peek l = 0x5C")
        case bs: True
        then have s1: "sim ?l1 ?l1'" by (intro sim_advance [OF s]) simp_all
        note c1 = sim_terminator [OF s1] sim_whitespace [OF s1] sim_forbidden [OF s1, of U]
        from s1 have ln1: "line ?l1' = line ?l1" by (simp add: sim_def)
        show ?thesis
        proof (cases "IsLineTerminator (peek ?l1)")
          case True
          from sim_consumeTerminator [OF s1 True] ne nq bs True tk
            "1.IH"(1) [of "peek l" ?l1 "peek ?l1" "consumeTerminator ?l1'"]
          have "sim_result (scanSingleQuoted_loop U tok (consumeTerminator ?l1) buf)
                  (scanSingleQuoted_loop U tok' (consumeTerminator ?l1') (crlf buf))"
            by (simp add: pos_lt_rest)
          with True ne nq bs c c1 show ?thesis unfolding u by (simp add: pos_lt_rest Let_def)
        next
          case nt: False
          then have pp: "peek ?l1' = peek ?l1" by (rule sim_peek_plain [OF s1])
          show ?thesis
          proof (cases "\<not> IsWhitespace (peek ?l1) \<and> \<not> IsForbidden U (peek ?l1)")
            case True
            from nt not_terminator_plain have "sim (snd (advance ?l1)) (snd (advance ?l1'))"
              by (intro sim_advance [OF s1]) auto
            with ne nq bs nt True tk "1.IH"(2) [of "peek l" ?l1 "peek ?l1" "snd (advance ?l1')"]
            have "sim_result (scanSingleQuoted_loop U tok (snd (advance ?l1)) (buf @ [peek ?l1]))
                    (scanSingleQuoted_loop U tok' (snd (advance ?l1')) (crlf (buf @ [peek ?l1])))"
              by (simp add: pos_lt_rest)
            with True ne nq bs nt c c1 pp not_terminator_plain [OF nt] show ?thesis
              unfolding u by (simp add: pos_lt_rest Let_def crlf_snoc_plain)
          next
            case False
            with ne nq bs nt c c1 ln1 show ?thesis
              unfolding u by (auto simp: pos_lt_rest Let_def)
          qed
        qed
      next
        case nb: False
        show ?thesis
        proof (cases "\<not> IsLineTerminator (peek l) \<and> \<not> IsForbidden U (peek l)")
          case True
          then have pl: "peek l \<noteq> 0x0A \<and> peek l \<noteq> 0x0D" "peek l' = peek l"
            using not_terminator_plain sim_peek_plain [OF s] by auto
          then have "sim ?l1 ?l1'" by (intro sim_advance [OF s]) auto
          with ne nq nb True tk "1.IH"(3) [of "peek l" ?l1']
          have "sim_result (scanSingleQuoted_loop U tok ?l1 (buf @ [peek l]))
                  (scanSingleQuoted_loop U tok' ?l1' (crlf (buf @ [peek l])))"
            by (simp add: pos_lt_rest)
          with True ne nq nb c pl show ?thesis
            unfolding u by (simp add: pos_lt_rest Let_def crlf_snoc_plain)
        next
          case False
          with ne nq nb c ln show ?thesis unfolding u by (auto simp: pos_lt_rest Let_def)
        qed
      qed
    qed
  qed
qed

text \<open>The test of \<^verbatim>\<open>scanTripleQuoted\<close> for the closing quotes, on what is left of the input.\<close>

lemma closing_rest:
  "(peek l = 0x22 \<and> pos l + 2 < length (input l)
      \<and> input l ! (pos l + 1) = 0x22 \<and> input l ! (pos l + 2) = 0x22)
   = (\<exists>cs. rest l = 0x22 # 0x22 # 0x22 # cs)"
proof
  assume a: "peek l = 0x22 \<and> pos l + 2 < length (input l)
      \<and> input l ! (pos l + 1) = 0x22 \<and> input l ! (pos l + 2) = 0x22"
  then have "drop (pos l) (input l)
     = input l ! pos l # input l ! (pos l + 1) # input l ! (pos l + 2) # drop (pos l + 3) (input l)"
    using Cons_nth_drop_Suc [of "pos l" "input l"] Cons_nth_drop_Suc [of "pos l + 1" "input l"]
      Cons_nth_drop_Suc [of "pos l + 2" "input l"]
    by (simp add: eval_nat_numeral)
  with a show "\<exists>cs. rest l = 0x22 # 0x22 # 0x22 # cs" by (auto simp: rest_def peek_def)
next
  assume "\<exists>cs. rest l = 0x22 # 0x22 # 0x22 # cs"
  then obtain cs where r: "rest l = 0x22 # 0x22 # 0x22 # cs" ..
  from arg_cong [OF r, of length] have len: "pos l + 2 < length (input l)" by (simp add: rest_def)
  from r have "rest l ! 0 = 0x22" "rest l ! 1 = 0x22" "rest l ! 2 = 0x22" by simp_all
  with len show "peek l = 0x22 \<and> pos l + 2 < length (input l)
      \<and> input l ! (pos l + 1) = 0x22 \<and> input l ! (pos l + 2) = 0x22"
    by (simp add: rest_def peek_def)
qed

lemma to_crlf_quotes:
  "(\<exists>cs'. to_crlf b cs = 0x22 # 0x22 # 0x22 # cs') = (\<exists>cs'. cs = 0x22 # 0x22 # 0x22 # cs')"
proof (cases cs)
  case Nil
  then show ?thesis by simp
next
  case c1: (Cons a as)
  show ?thesis
  proof (cases as)
    case Nil
    with c1 show ?thesis by auto
  next
    case c2: (Cons b bs)
    show ?thesis
    proof (cases bs)
      case Nil
      with c1 c2 show ?thesis by auto
    next
      case (Cons c cs)
      with c1 c2 show ?thesis by auto
    qed
  qed
qed

lemma scanTripleQuoted_loop_sim:
  "rest l' = to_crlf (afterCR buf) (rest l) \<Longrightarrow> line l' = line l \<Longrightarrow>
   Type tok' = Type tok \<Longrightarrow> Line tok' = Line tok \<Longrightarrow>
   sim_result (scanTripleQuoted_loop U tok l buf) (scanTripleQuoted_loop U tok' l' (crlf buf))"
proof (induction U tok l buf arbitrary: l' rule: scanTripleQuoted_loop.induct)
  case (1 U tok l buf)
  note r' = "1.prems"(1) and ln = "1.prems"(2) and tk = "1.prems"(3,4)
  note v = tsim_Value [OF tk, of buf]
  let ?l1 = "snd (advance l)" and ?l1' = "snd (advance l')"
  let ?closing = "\<lambda>l. peek l = 0x22 \<and> pos l + 2 < length (input l)
      \<and> input l ! (pos l + 1) = 0x22 \<and> input l ! (pos l + 2) = 0x22"
  note u = scanTripleQuoted_loop.simps [of U tok l buf, unfolded Let_def]
  note u' = scanTripleQuoted_loop.simps [of U tok' l' "crlf buf", unfolded Let_def]
  show ?case
  proof (cases "rest l")
    case Nil
    with r' have "rest l' = []" by simp
    with Nil ln show ?thesis unfolding u u' by (simp add: pos_lt_rest)
  next
    case (Cons c cs)
    then have p: "pos l < length (input l)" and pk: "peek l = c"
      by (simp_all add: pos_lt_rest peek_rest)
    from r' Cons have rl': "rest l'
        = (if c = 0x0A \<and> \<not> afterCR buf then [0x0D, 0x0A] else [c]) @ to_crlf (c = 0x0D) cs"
      by simp
    then have p': "pos l' < length (input l')"
      and pk': "peek l' = (if c = 0x0A \<and> \<not> afterCR buf then 0x0D else c)"
      by (auto simp: pos_lt_rest peek_rest)
    from closing_rest [of l] closing_rest [of l'] to_crlf_quotes [of "afterCR buf" "rest l"] r'
    have cl: "?closing l' = ?closing l" by simp
    note w = u [unfolded if_P [OF p]] and w' = u' [unfolded if_P [OF p']]
    have r1: "rest ?l1 = cs" using Cons by simp
    have n0: "pos ?l1 \<noteq> 0" "pos ?l1' \<noteq> 0"
      using p p' by (simp_all add: advance_def)
    show ?thesis
    proof (cases "?closing l")
      case True
      with cl have True': "?closing l'" by simp
      from True closing_rest [of l] obtain cs3 where c3: "rest l = 0x22 # 0x22 # 0x22 # cs3"
        by auto
      with r' have c3': "rest l' = 0x22 # 0x22 # 0x22 # crlf cs3" by (simp add: crlf_def)
      have "sim (snd (advance (snd (advance ?l1)))) (snd (advance (snd (advance ?l1'))))"
        using c3 c3' ln n0 by (simp add: sim_def pos_advance_0)
      with v show ?thesis
        unfolding w [unfolded if_P [OF True]] w' [unfolded if_P [OF True']] by simp
    next
      case ncl: False
      with cl have ncl': "\<not> ?closing l'" by simp
      note x = w [unfolded if_not_P [OF ncl]] and x' = w' [unfolded if_not_P [OF ncl']]
      show ?thesis
      proof (cases "c = 0x5C")
        case bs: True
        with rl' r1 have "rest ?l1' = crlf (rest ?l1)" by (simp add: crlf_def)
        with ln n0 have s1: "sim ?l1 ?l1'" by (simp add: sim_def)
        note c1 = sim_terminator [OF s1] sim_whitespace [OF s1] sim_forbidden [OF s1, of U]
        show ?thesis
        proof (cases "\<not> IsWhitespace (peek ?l1) \<and> \<not> IsLineTerminator (peek ?l1)
            \<and> \<not> IsForbidden U (peek ?l1)")
          case True
          then have nt: "\<not> IsLineTerminator (peek ?l1)" by simp
          then have pp: "peek ?l1' = peek ?l1" by (rule sim_peek_plain [OF s1])
          from nt not_terminator_plain have s2: "sim (snd (advance ?l1)) (snd (advance ?l1'))"
            by (intro sim_advance [OF s1]) auto
          from not_terminator_plain [OF nt] have a: "afterCR (buf @ [peek ?l1]) = False" by simp
          from s2 have "rest (snd (advance ?l1'))
              = to_crlf (afterCR (buf @ [peek ?l1])) (rest (snd (advance ?l1)))"
            unfolding a by (simp add: sim_def crlf_def)
          with p pk bs ncl True tk ln
            "1.IH"(1) [of "peek l" ?l1 "peek ?l1" "snd (advance ?l1')"]
          have "sim_result (scanTripleQuoted_loop U tok (snd (advance ?l1)) (buf @ [peek ?l1]))
                  (scanTripleQuoted_loop U tok' (snd (advance ?l1')) (crlf (buf @ [peek ?l1])))"
            by simp
          with True pk pk' bs c1 pp not_terminator_plain [OF nt] show ?thesis
            unfolding x x' by (simp add: crlf_snoc_plain)
        next
          case False
          with pk pk' bs c1 ln show ?thesis unfolding x x' by auto
        qed
      next
        case nb: False
        show ?thesis
        proof (cases "IsForbidden U c")
          case True
          with terminator_allowed [of c U] have "c \<noteq> 0x0A" by (auto simp: IsLineTerminator_def)
          with True pk pk' nb ln show ?thesis unfolding x x' by simp
        next
          case nf: False
          show ?thesis
          proof (cases "c = 0x0A \<and> \<not> afterCR buf")
            case True
            let ?l2' = "snd (advance ?l1')"
            have f: "\<not> IsForbidden U 0x0D" "\<not> IsForbidden U 0x0A"
              by (rule terminator_allowed, simp add: IsLineTerminator_def)+
            from rl' True have rl1': "rest ?l1' = 0x0A # to_crlf False cs" by simp
            then have p1': "pos ?l1' < length (input ?l1')"
              using pos_lt_rest [of ?l1'] by simp
            from rl1' have pk1': "peek ?l1' = 0x0A" by (simp add: peek_rest)
            have ncl1': "\<not> ?closing ?l1'" using pk1' by simp
            note y = scanTripleQuoted_loop.simps [of U tok' ?l1' "crlf buf @ [peek l']",
                unfolded Let_def if_P [OF p1'] if_not_P [OF ncl1']]
            from rl1' r1 True have "rest ?l2' = to_crlf (afterCR (buf @ [c])) (rest ?l1)"
              by simp
            with p pk nb ncl nf tk ln "1.IH"(2) [of "peek l" ?l2']
            have "sim_result (scanTripleQuoted_loop U tok ?l1 (buf @ [c]))
                    (scanTripleQuoted_loop U tok' ?l2' (crlf (buf @ [c])))"
              by simp
            with True pk pk' pk1' nb nf f show ?thesis
              unfolding x x' y by (simp add: crlf_snoc)
          next
            case False
            with rl' r1 have "rest ?l1' = to_crlf (afterCR (buf @ [c])) (rest ?l1)"
              by auto
            with p pk nb ncl nf tk ln "1.IH"(2) [of "peek l" ?l1']
            have "sim_result (scanTripleQuoted_loop U tok ?l1 (buf @ [c]))
                    (scanTripleQuoted_loop U tok' ?l1' (crlf (buf @ [c])))"
              by simp
            with False pk pk' nb nf show ?thesis
              unfolding x x' by (auto simp: crlf_snoc)
          qed
        qed
      qed
    qed
  qed
qed

lemma scanNewline_eq: "scanNewline l = Inr (makeToken l TokenNewline [], consumeTerminator l)"
  by (simp add: scanNewline_def consumeTerminator_def Let_def case_prod_beta)

lemma scanNewline_sim:
  "sim l l' \<Longrightarrow> IsLineTerminator (peek l) \<Longrightarrow> sim_result (scanNewline l) (scanNewline l')"
  by (simp add: scanNewline_eq sim_token sim_consumeTerminator)

text \<open>A comment's value: the characters from the \<open>#\<close> up to the line terminator.\<close>

lemma scanComment_loop_pos:
  "scanComment_loop U l = Inr l1 \<Longrightarrow>
   input l1 = input l \<and> pos l1 = pos l + length (takeWhile (\<lambda>c. \<not> IsLineTerminator c) (rest l))"
proof (induction U l rule: scanComment_loop.induct)
  case (1 U l)
  show ?case
  proof (cases "rest l \<noteq> [] \<and> \<not> IsLineTerminator (peek l) \<and> \<not> IsForbidden U (peek l)")
    case True
    with "1.prems" have "scanComment_loop U (snd (advance l)) = Inr l1"
      unfolding scanComment_loop.simps [of U l] by (simp add: pos_lt_rest Let_def)
    with True "1.IH" [of "peek l"]
    have "input l1 = input l \<and> pos l1 = pos (snd (advance l))
            + length (takeWhile (\<lambda>c. \<not> IsLineTerminator c) (tl (rest l)))"
      by (simp add: pos_lt_rest)
    moreover from True have "pos (snd (advance l)) = pos l + 1"
      by (simp add: advance_pos pos_lt_rest)
    moreover from True obtain c cs where "rest l = c # cs" "\<not> IsLineTerminator c"
      by (cases "rest l") (auto simp: peek_rest)
    ultimately show ?thesis by simp
  next
    case False
    with "1.prems" have "l1 = l" "rest l = [] \<or> IsLineTerminator (peek l)"
      unfolding scanComment_loop.simps [of U l]
      by (auto simp: pos_lt_rest Let_def split: if_splits)
    then show ?thesis by (cases "rest l") (auto simp: peek_rest)
  qed
qed

lemma scanComment_value:
  assumes "scanComment U l = Inr (t, l1)" "rest l \<noteq> []" "\<not> IsLineTerminator (peek l)"
  shows "t = makeToken l1 TokenComment (takeWhile (\<lambda>c. \<not> IsLineTerminator c) (rest l))"
proof -
  from assms obtain c cs where r: "rest l = c # cs" "\<not> IsLineTerminator c"
    by (cases "rest l") (auto simp: peek_rest)
  from assms(1) have sl: "scanComment_loop U (snd (advance l)) = Inr l1"
    and t: "t = makeToken l1 TokenComment (take (pos l1 - pos l) (drop (pos l) (input l1)))"
    by (auto simp: scanComment_def Let_def split: sum.splits)
  from scanComment_loop_pos [OF sl] assms(2) r
  have p: "input l1 = input l"
    "pos l1 - pos l = Suc (length (takeWhile (\<lambda>c. \<not> IsLineTerminator c) cs))"
    by (simp_all add: advance_pos pos_lt_rest)
  have "take (pos l1 - pos l) (drop (pos l) (input l1))
        = take (Suc (length (takeWhile (\<lambda>c. \<not> IsLineTerminator c) cs))) (c # cs)"
    using p r by (simp add: rest_def)
  also have "\<dots> = c # takeWhile (\<lambda>c. \<not> IsLineTerminator c) cs"
    by (simp add: takeWhile_eq_take [symmetric])
  finally show ?thesis using t r by simp
qed

lemma takeWhile_crlf:
  "takeWhile (\<lambda>c. \<not> IsLineTerminator c) (crlf cs) = takeWhile (\<lambda>c. \<not> IsLineTerminator c) cs"
proof (induction cs)
  case Nil
  show ?case by simp
next
  case (Cons c cs)
  show ?case
  proof (cases "IsLineTerminator c")
    case True
    then have "IsLineTerminator (hd (crlf (c # cs)))"
      by (auto simp: crlf_hd IsLineTerminator_def)
    moreover have "crlf (c # cs) \<noteq> []" by simp
    ultimately have "takeWhile (\<lambda>c. \<not> IsLineTerminator c) (crlf (c # cs)) = []"
      by (cases "crlf (c # cs)") simp_all
    with True show ?thesis by simp
  next
    case False
    with not_terminator_plain [OF False] Cons.IH show ?thesis by (simp add: crlf_plain)
  qed
qed

lemma crlf_takeWhile:
  "crlf (takeWhile (\<lambda>c. \<not> IsLineTerminator c) cs) = takeWhile (\<lambda>c. \<not> IsLineTerminator c) cs"
proof (rule crlf_id)
  show "0x0A \<notin> set (takeWhile (\<lambda>c. \<not> IsLineTerminator c) cs)"
    by (auto dest!: set_takeWhileD simp: IsLineTerminator_def)
qed

lemma scanComment_sim:
  assumes s: "sim l l'" and ne: "rest l \<noteq> []" and nt: "\<not> IsLineTerminator (peek l)"
    and nf: "\<not> IsForbidden U (peek l)"
  shows "sim_result (scanComment U l) (scanComment U l')"
proof -
  from nt not_terminator_plain have s1: "sim (snd (advance l)) (snd (advance l'))"
    by (intro sim_advance [OF s]) auto
  note ls = scanComment_loop_sim [OF s1, of U]
  from s ne nt have ne': "rest l' \<noteq> []" "\<not> IsLineTerminator (peek l')"
    by (simp_all add: sim_end sim_terminator)
  show ?thesis
  proof (cases "scanComment U l")
    case (Inl e)
    then have "scanComment_loop U (snd (advance l)) = Inl e"
      by (auto simp: scanComment_def Let_def split: sum.splits)
    with ls have "scanComment_loop U (snd (advance l')) = Inl e" by simp
    then have "scanComment U l' = Inl e" by (simp add: scanComment_def)
    with Inl show ?thesis by simp
  next
    case (Inr r)
    obtain t l1 where r: "r = (t, l1)" by (cases r)
    from Inr r have sl: "scanComment_loop U (snd (advance l)) = Inr l1"
      by (auto simp: scanComment_def Let_def split: sum.splits)
    with ls obtain l1' where sl': "scanComment_loop U (snd (advance l')) = Inr l1'"
      and s2: "sim l1 l1'" by auto
    then obtain t' where c': "scanComment U l' = Inr (t', l1')"
      by (simp add: scanComment_def Let_def)
    from scanComment_value [OF Inr [unfolded r] ne nt] scanComment_value [OF c' ne']
      s takeWhile_crlf [of "rest l"]
      sim_token [OF s2 crlf_takeWhile [of "rest l"], of TokenComment]
    have "tsim t t'" by (simp add: sim_def)
    with Inr r c' s2 show ?thesis by simp
  qed
qed

lemma scanQuotedArgument_sim:
  assumes s: "sim l l'" and q: "peek l = 0x22" and ne: "rest l \<noteq> []"
  shows "sim_result (scanQuotedArgument U l) (scanQuotedArgument U l')"
proof -
  let ?l1 = "snd (advance l)" and ?l1' = "snd (advance l')"
  let ?l2 = "snd (advance ?l1)" and ?l2' = "snd (advance ?l1')"
  let ?l3 = "snd (advance ?l2)" and ?l3' = "snd (advance ?l2')"
  from q have s1: "sim ?l1 ?l1'" by (intro sim_advance [OF s]) simp_all
  have t: "Type (makeToken a TokenArgument []) = Type (makeToken b TokenArgument [])" for a b
    by (simp add: makeToken_def)
  have ln: "sim a b \<Longrightarrow> Line (makeToken b TokenArgument []) = Line (makeToken a TokenArgument [])"
    for a b by (simp add: makeToken_def sim_def)
  note v = tsim_Value [OF t ln [OF s], of "[]", simplified]
  show ?thesis
  proof (cases "peek ?l1 = 0x22")
    case True
    then have s2: "sim ?l2 ?l2'" by (intro sim_advance [OF s1]) simp_all
    show ?thesis
    proof (cases "peek ?l2 = 0x22")
      case t3: True
      then have s3: "sim ?l3 ?l3'" by (intro sim_advance [OF s2]) simp_all
      then have "rest ?l3' = to_crlf (afterCR []) (rest ?l3)" "line ?l3' = line ?l3"
        by (simp_all add: sim_def crlf_def)
      from scanTripleQuoted_loop_sim [OF this t ln [OF s3], of U] True t3 s1 s2
      show ?thesis
        by (simp add: scanQuotedArgument_def Let_def sim_peek_eq scanTripleQuoted_def)
    next
      case False
      with True s1 s2 v show ?thesis
        by (simp add: scanQuotedArgument_def Let_def sim_peek_eq)
    qed
  next
    case False
    with s1 scanSingleQuoted_loop_sim [OF s1 t ln [OF s1], of U "[]"]
    show ?thesis
      by (simp add: scanQuotedArgument_def Let_def sim_peek_eq scanSingleQuoted_def)
  qed
qed

lemma ValidateUTF8_to_crlf: "ValidateUTF8 (to_crlf b s) = ValidateUTF8 s"
  by (induction s arbitrary: b) (auto simp: ValidateUTF8_def)

lemma rest_pos_0: "pos l = 0 \<Longrightarrow> rest l = input l"
  by (simp add: rest_def)

lemma skipBOM_sim: "sim l l' \<Longrightarrow> sim (skipBOM l) (skipBOM l')"
proof (cases "pos l = 0 \<and> take 1 (input l) = [0xFEFF]")
  case True
  assume s: "sim l l'"
  from True obtain cs where i: "input l = 0xFEFF # cs" by (cases "input l") auto
  from s True have p': "pos l' = 0" by (simp add: sim_def)
  with s True i have i': "input l' = 0xFEFF # crlf cs"
    using rest_pos_0 [of l] rest_pos_0 [of l'] by (simp add: sim_def crlf_plain)
  from s have "line l' = line l" by (simp_all add: sim_def)
  then show ?thesis using True p' i i'
    by (simp add: skipBOM_def sim_def rest_def)
next
  case False
  assume s: "sim l l'"
  have "\<not> (pos l' = 0 \<and> take 1 (input l') = [0xFEFF])"
  proof
    assume a: "pos l' = 0 \<and> take 1 (input l') = [0xFEFF]"
    with s have p: "pos l = 0" by (simp add: sim_def)
    with s a have "input l' = crlf (input l)"
      using rest_pos_0 [of l] rest_pos_0 [of l'] by (simp add: sim_def)
    with a have "input l \<noteq> []" "hd (crlf (input l)) = 0xFEFF"
      by (cases "input l"; cases "crlf (input l)"; auto)+
    then have "hd (input l) = 0xFEFF" by (auto simp: crlf_hd split: if_splits)
    with \<open>input l \<noteq> []\<close> have "take 1 (input l) = [0xFEFF]" by (cases "input l") auto
    with p False show False by simp
  qed
  with False s show ?thesis by (auto simp: skipBOM_def)
qed

lemma NextToken_sim:
  assumes s0: "sim l0 l0'"
  shows "sim_result (NextToken U l0) (NextToken U l0')"
proof -
  define m where "m = skipWhitespace (skipBOM l0)"
  define m' where "m' = skipWhitespace (skipBOM l0')"
  have s: "sim m m'"
    unfolding m_def m'_def using s0 by (intro skipWhitespace_sim skipBOM_sim)
  from s0 have p0: "(pos l0' = 0) = (pos l0 = 0)" by (simp add: sim_def)
  have v: "ValidateUTF8 (input l0') = ValidateUTF8 (input l0)" if "pos l0 = 0"
  proof -
    from that p0 s0 have "input l0' = crlf (input l0)"
      using rest_pos_0 [of l0] rest_pos_0 [of l0'] by (simp add: sim_def)
    then show ?thesis by (simp add: crlf_def ValidateUTF8_to_crlf)
  qed
  note u = NextToken_def [of U l0, unfolded skipBOM_def [symmetric] Let_def, folded m_def]
    NextToken_def [of U l0', unfolded skipBOM_def [symmetric] Let_def, folded m'_def]
  have tk: "tsim (makeToken m ty []) (makeToken m' ty [])"
    "tsim (makeToken m ty [0x3B]) (makeToken m' ty [0x3B])"
    "tsim (makeToken m ty [0x7B]) (makeToken m' ty [0x7B])"
    "tsim (makeToken m ty [0x7D]) (makeToken m' ty [0x7D])" for ty
    by (rule sim_token [OF s], simp add: crlf_def)+
  note c = sim_end [OF s] sim_terminator [OF s] sim_forbidden [OF s, of U]
    sim_argument [OF s, of U] tk
  from s have lc: "line m' = line m" by (simp_all add: sim_def)
  have ta: "Type (makeToken m' TokenArgument []) = Type (makeToken m TokenArgument [])"
    "Line (makeToken m' TokenArgument []) = Line (makeToken m TokenArgument [])"
    using lc by (simp_all add: makeToken_def)
  note pe = sim_peek_eq [OF s]
  show ?thesis
  proof (cases "pos l0 = 0 \<and> \<not> ValidateUTF8 (input l0)")
    case True
    with p0 v show ?thesis unfolding u by simp
  next
    case valid: False
    with p0 v have valid': "\<not> (pos l0' = 0 \<and> \<not> ValidateUTF8 (input l0'))" by auto
    note w = u(1) [unfolded if_not_P [OF valid]] u(2) [unfolded if_not_P [OF valid']]
    show ?thesis
    proof (cases "rest m = []")
      case True
      with c s show ?thesis unfolding w by (simp add: rest_Nil)
    next
      case ne: False
      show ?thesis
      proof (cases "peek m = 0x1A")
        case True
        with ne obtain cs where r: "rest m = 0x1A # cs" by (cases "rest m") (auto simp: peek_rest)
        with s have r': "rest m' = 0x1A # crlf cs" by (simp add: sim_def crlf_plain)
        have "length (input m) - pos m = Suc (length cs)"
          using arg_cong [OF r, of length] by (simp add: rest_def)
        then have "(pos m + 1 < length (input m)) = (cs \<noteq> [])"
          by (cases cs) auto
        moreover have "length (input m') - pos m' = Suc (length (crlf cs))"
          using arg_cong [OF r', of length] by (simp add: rest_def)
        then have "(pos m' + 1 < length (input m')) = (crlf cs \<noteq> [])"
          by (cases "crlf cs") auto
        ultimately have "(pos m' + 1 < length (input m')) = (pos m + 1 < length (input m))"
          by simp
        with True ne c lc s pe show ?thesis
          unfolding w by (simp add: rest_Nil)
      next
        case nz: False
        show ?thesis
        proof (cases "IsForbidden U (peek m)")
          case True
          with nz ne c lc pe show ?thesis unfolding w by (simp add: rest_Nil)
        next
          case nf: False
          show ?thesis
          proof (cases "IsLineTerminator (peek m)")
            case True
            with nz nf ne c pe scanNewline_sim [OF s] show ?thesis
              unfolding w by (simp add: rest_Nil)
          next
            case nt: False
            then have pp: "peek m' = peek m" by (rule sim_peek_plain [OF s])
            from nt not_terminator_plain have sa: "sim (snd (advance m)) (snd (advance m'))"
              by (intro sim_advance [OF s]) auto
            from nz nf nt ne c lc pp sa scanComment_sim [OF s ne nt nf]
              scanQuotedArgument_sim [OF s _ ne, of U]
              scanSimpleArgument_loop_sim [OF s ta, of U "[]"]
            show ?thesis
              unfolding w by (simp add: rest_Nil scanSimpleArgument_def)
          qed
        qed
      qed
    qed
  qed
qed

text \<open>
  The tree of the text with CR LF: the same directives with the same nesting, every argument
  with CR LF for its lone line feeds.
\<close>

fun crlf_directive :: "Directive \<Rightarrow> Directive" where
  "crlf_directive (Directive args subdirs) = Directive (map crlf args) (map crlf_directive subdirs)"

definition crlf_unit :: "ConfigurationUnit \<Rightarrow> ConfigurationUnit" where
  "crlf_unit cu = ConfigurationUnit (map crlf_directive (Directives cu))"

text \<open>The shape of a directive: how many arguments it has, and the shapes of its subdirectives.\<close>

fun shape :: "Directive \<Rightarrow> Directive" where
  "shape (Directive args subdirs) = Directive (map (\<lambda>a. []) args) (map shape subdirs)"

lemma shape_crlf: "shape (crlf_directive d) = shape d"
  by (induction d) simp

text \<open>Two parsers at the same place: cursors at the same place, the same current token.\<close>

definition psim :: "Parser \<Rightarrow> Parser \<Rightarrow> bool" where
  "psim p p' = (sim (lexer p) (lexer p') \<and> tsim (current p) (current p'))"

lemma psim_current:
  assumes "psim p p'"
  shows "Type (current p') = Type (current p)" "Line (current p') = Line (current p)"
    "Value (current p') = crlf (Value (current p))"
  using assms by (simp_all add: psim_def tsim_def)

lemma Parser_advance_sim:
  assumes "sim (lexer p) (lexer p')"
  obtains (err) e e' where "Parser_advance U p = Inl e" "Parser_advance U p' = Inl e'"
      "same_error e e'"
    | (ok) q q' where "Parser_advance U p = Inr q" "Parser_advance U p' = Inr q'" "psim q q'"
proof -
  have "(\<exists>e e'. Parser_advance U p = Inl e \<and> Parser_advance U p' = Inl e' \<and> same_error e e')
      \<or> (\<exists>q q'. Parser_advance U p = Inr q \<and> Parser_advance U p' = Inr q' \<and> psim q q')"
    using assms
  proof (induction U p arbitrary: p' rule: Parser_advance.induct)
    case (1 U p)
    note u = Parser_advance.simps [of U p] Parser_advance.simps [of U p']
    note nt = NextToken_sim [OF "1.prems", of U]
    show ?case
    proof (cases "NextToken U (lexer p)")
      case (Inl e)
      with nt obtain e' where "NextToken U (lexer p') = Inl e'" "same_error e e'" by auto
      with Inl show ?thesis unfolding u by simp
    next
      case (Inr r)
      obtain tok l1 where r: "r = (tok, l1)" by (cases r)
      with Inr nt obtain tok' l1' where n': "NextToken U (lexer p') = Inr (tok', l1')"
        and t: "tsim tok tok'" and s1: "sim l1 l1'"
        by auto
      from t have ty: "Type tok' = Type tok" by (simp add: tsim_def)
      show ?thesis
      proof (cases "Type tok = TokenComment")
        case True
        from "1.IH" [OF Inr [unfolded r] refl True, of "p'\<lparr>lexer := l1'\<rparr>"] s1
        have "(\<exists>e e'. Parser_advance U (p\<lparr>lexer := l1\<rparr>) = Inl e
                \<and> Parser_advance U (p'\<lparr>lexer := l1'\<rparr>) = Inl e' \<and> same_error e e')
            \<or> (\<exists>q q'. Parser_advance U (p\<lparr>lexer := l1\<rparr>) = Inr q
                \<and> Parser_advance U (p'\<lparr>lexer := l1'\<rparr>) = Inr q' \<and> psim q q')" by simp
        with True ty Inr r n' show ?thesis unfolding u by simp
      next
        case False
        with Inr r n' s1 t ty show ?thesis unfolding u by (simp add: psim_def)
      qed
    qed
  qed
  with err ok show ?thesis by blast
qed

lemma Parser_advance_psim:
  assumes "psim p p'"
  obtains (err) e e' where "Parser_advance U p = Inl e" "Parser_advance U p' = Inl e'"
      "same_error e e'"
    | (ok) q q' where "Parser_advance U p = Inr q" "Parser_advance U p' = Inr q'" "psim q q'"
proof -
  from assms have "sim (lexer p) (lexer p')" by (simp add: psim_def)
  then show ?thesis
  proof (cases rule: Parser_advance_sim [where U = U])
    case (err e e')
    then show ?thesis by (rule that(1))
  next
    case (ok q q')
    then show ?thesis by (rule that(2))
  qed
qed

text \<open>The results of a parsing operation at two such parsers; \<open>f\<close> puts CR LF in a value.\<close>

definition sim_parse ::
  "('a \<Rightarrow> 'a) \<Rightarrow> (error + 'a \<times> Parser) \<Rightarrow> (error + 'a \<times> Parser) \<Rightarrow> bool" where
  "sim_parse f r r' =
     (case r of
        Inl e \<Rightarrow> (\<exists>e'. r' = Inl e' \<and> same_error e e')
      | Inr (v, q) \<Rightarrow> (\<exists>q'. r' = Inr (f v, q') \<and> psim q q'))"

definition sim_fuel ::
  "('a \<Rightarrow> 'a) \<Rightarrow> (error + 'a \<times> Parser) option \<Rightarrow> (error + 'a \<times> Parser) option \<Rightarrow> bool" where
  "sim_fuel f x x' =
     (case x of
        None \<Rightarrow> x' = None
      | Some r \<Rightarrow> (\<exists>r'. x' = Some r' \<and> sim_parse f r r'))"

lemma sim_parse_simps [simp]:
  "sim_parse f (Inl e) r' = (\<exists>e'. r' = Inl e' \<and> same_error e e')"
  "sim_parse f (Inr (v, q)) r' = (\<exists>q'. r' = Inr (f v, q') \<and> psim q q')"
  by (simp_all add: sim_parse_def)

lemma sim_fuel_simps [simp]:
  "sim_fuel f None x' = (x' = None)"
  "sim_fuel f (Some (Inl e)) x' = (\<exists>e'. x' = Some (Inl e') \<and> same_error e e')"
  "sim_fuel f (Some (Inr (v, q))) x' = (\<exists>q'. x' = Some (Inr (f v, q')) \<and> psim q q')"
  by (auto simp: sim_fuel_def)

lemma parseArguments_loop_sim:
  "psim p p' \<Longrightarrow>
   sim_parse (map crlf) (parseArguments_loop U p args) (parseArguments_loop U p' (map crlf args))"
proof (induction U p args arbitrary: p' rule: parseArguments_loop.induct)
  case (1 U p args)
  note ps = "1.prems"
  note u = parseArguments_loop.simps [of U p args]
    parseArguments_loop.simps [of U p' "map crlf args"]
  note c = psim_current [OF ps]
  show ?case
  proof (cases "Type (current p) = TokenArgument \<or> Type (current p) = TokenLineContinuation")
    case False
    with ps show ?thesis unfolding u c by simp
  next
    case True
    show ?thesis
    proof (cases "Type (current p) = TokenLineContinuation")
      case lc: True
      from ps show ?thesis
      proof (cases rule: Parser_advance_psim [where U = U])
        case (err e e')
        with True lc show ?thesis unfolding u c by simp
      next
        case (ok q q')
        with "1.IH"(1) [OF True lc ok(1), of q'] True lc show ?thesis unfolding u c by simp
      qed
    next
      case na: False
      from ps show ?thesis
      proof (cases rule: Parser_advance_psim [where U = U])
        case (err e e')
        with True na show ?thesis unfolding u c by simp
      next
        case (ok q q')
        with "1.IH"(2) [OF True na ok(1), of q'] True na show ?thesis unfolding u c by simp
      qed
    qed
  qed
qed

lemma skipNewlines_sim:
  assumes "psim p p'"
  obtains (err) e e' where "skipNewlines U p = Inl e" "skipNewlines U p' = Inl e'"
      "same_error e e'"
    | (ok) q q' where "skipNewlines U p = Inr q" "skipNewlines U p' = Inr q'" "psim q q'"
proof -
  have "(\<exists>e e'. skipNewlines U p = Inl e \<and> skipNewlines U p' = Inl e' \<and> same_error e e')
      \<or> (\<exists>q q'. skipNewlines U p = Inr q \<and> skipNewlines U p' = Inr q' \<and> psim q q')"
    using assms
  proof (induction U p arbitrary: p' rule: skipNewlines.induct)
    case (1 U p)
    note ps = "1.prems"
    note u = skipNewlines.simps [of U p] skipNewlines.simps [of U p']
    note c = psim_current [OF ps]
    show ?case
    proof (cases "Type (current p) = TokenNewline")
      case False
      with ps show ?thesis unfolding u c by simp
    next
      case True
      from ps show ?thesis
      proof (cases rule: Parser_advance_psim [where U = U])
        case (err e e')
        with True show ?thesis unfolding u c by simp
      next
        case (ok q q')
        with "1.IH" [OF True ok(1), of q'] True show ?thesis unfolding u c by simp
      qed
    qed
  qed
  with err ok show ?thesis by blast
qed

lemma parser_sim:
  "(\<forall>b p p' ds. psim p p' \<longrightarrow>
       sim_fuel (map crlf_directive) (parseDirectives n U b p ds)
         (parseDirectives n U b p' (map crlf_directive ds)))
   \<and> (\<forall>p p'. psim p p' \<longrightarrow>
         sim_fuel crlf_directive (parseDirective n U p) (parseDirective n U p'))
   \<and> (\<forall>p p'. psim p p' \<longrightarrow>
         sim_fuel (map crlf_directive) (parseBlock n U p) (parseBlock n U p'))"
proof (induction n)
  case 0
  show ?case by simp
next
  case (Suc n)
  note IHds = Suc [THEN conjunct1, rule_format]
  note IHd = Suc [THEN conjunct2, THEN conjunct1, rule_format]
  note IHb = Suc [THEN conjunct2, THEN conjunct2, rule_format]
  have ds: "sim_fuel (map crlf_directive) (parseDirectives (Suc n) U b p ds)
              (parseDirectives (Suc n) U b p' (map crlf_directive ds))"
    if ps: "psim p p'" for b p p' ds
  proof -
    note c = psim_current [OF ps]
    note u = parseDirectives.simps(2) [of n U b p ds]
      parseDirectives.simps(2) [of n U b p' "map crlf_directive ds"]
    show ?thesis
    proof (cases "Type (current p) = TokenNewline")
      case True
      from ps show ?thesis
      proof (cases rule: Parser_advance_psim [where U = U])
        case (err e e')
        with True show ?thesis unfolding u c by simp
      next
        case (ok q q')
        with IHds [OF ok(3), of b ds] True show ?thesis unfolding u c by simp
      qed
    next
      case nl: False
      show ?thesis
      proof (cases "Type (current p) = TokenEOF \<or> Type (current p) = TokenRightBrace")
        case True
        with nl ps show ?thesis unfolding u c by auto
      next
        case False
        note d = IHd [OF ps]
        show ?thesis
        proof (cases "parseDirective n U p")
          case None
          with d nl False show ?thesis unfolding u c by simp
        next
          case (Some r)
          show ?thesis
          proof (cases r)
            case (Inl e)
            with Some d obtain e' where "parseDirective n U p' = Some (Inl e')" "same_error e e'"
              by auto
            with Some Inl nl False show ?thesis unfolding u c by simp
          next
            case (Inr dq)
            obtain dir q where dq: "dq = (dir, q)" by (cases dq)
            with Some Inr d obtain q'
              where q': "parseDirective n U p' = Some (Inr (crlf_directive dir, q'))" "psim q q'"
              by auto
            with IHds [OF q'(2), of b "ds @ [dir]"] Some Inr dq nl False show ?thesis
              unfolding u c by simp
          qed
        qed
      qed
    qed
  qed
  have bl: "sim_fuel (map crlf_directive) (parseBlock (Suc n) U p) (parseBlock (Suc n) U p')"
    if ps: "psim p p'" for p p'
  proof -
    note c = psim_current [OF ps]
    note u = parseBlock.simps(2) [of n U p] parseBlock.simps(2) [of n U p']
    show ?thesis
    proof (cases "Type (current p) = TokenLeftBrace")
      case False
      then show ?thesis unfolding u c by simp
    next
      case lb: True
      from ps show ?thesis
      proof (cases rule: Parser_advance_psim [where U = U])
        case (err e e')
        with lb show ?thesis unfolding u c by simp
      next
        case (ok p1 p1')
        note i = IHds [OF ok(3), of True "[]", simplified]
        show ?thesis
        proof (cases "parseDirectives n U True p1 []")
          case None
          with i ok lb show ?thesis unfolding u c by simp
        next
          case (Some r)
          show ?thesis
          proof (cases r)
            case (Inl e)
            with Some i obtain e' where "parseDirectives n U True p1' [] = Some (Inl e')"
              "same_error e e'" by auto
            with Some Inl ok lb show ?thesis unfolding u c by simp
          next
            case r: (Inr sq)
            obtain subdirs p2 where sq: "sq = (subdirs, p2)" by (cases sq)
            with Some r i obtain p2'
              where p2': "parseDirectives n U True p1' []
                  = Some (Inr (map crlf_directive subdirs, p2'))" "psim p2 p2'"
              by auto
            note c2 = psim_current [OF p2'(2)]
            show ?thesis
            proof (cases "Type (current p2) = TokenRightBrace")
              case False
              with Some r sq p2' ok lb c2 show ?thesis unfolding u c by simp
            next
              case rb: True
              from p2'(2) show ?thesis
              proof (cases rule: Parser_advance_psim [where U = U])
                case (err e e')
                with Some r sq p2' ok lb c2 rb show ?thesis unfolding u c by simp
              next
                case a3: (ok p3 p3')
                with Some r sq p2' ok lb c2 rb show ?thesis unfolding u c by simp
              qed
            qed
          qed
        qed
      qed
    qed
  qed
  have d: "sim_fuel crlf_directive (parseDirective (Suc n) U p) (parseDirective (Suc n) U p')"
    if ps: "psim p p'" for p p'
  proof -
    note u = parseDirective.simps(2) [of n U p] parseDirective.simps(2) [of n U p']
    note a = parseArguments_loop_sim [OF ps, of U "[]", simplified, folded parseArguments_def]
    show ?thesis
    proof (cases "parseArguments U p")
      case (Inl e)
      with a obtain e' where "parseArguments U p' = Inl e'" "same_error e e'" by auto
      with Inl show ?thesis unfolding u by simp
    next
      case (Inr ap)
      obtain args p1 where ap: "ap = (args, p1)" by (cases ap)
      with Inr a obtain p1' where p1': "parseArguments U p' = Inr (map crlf args, p1')"
        "psim p1 p1'"
        by auto
      note c1 = psim_current [OF p1'(2)]
      show ?thesis
      proof (cases "args = []")
        case True
        with Inr ap p1' c1 show ?thesis unfolding u by simp
      next
        case ne: False
        from p1'(2) show ?thesis
        proof (cases rule: skipNewlines_sim [where U = U])
          case (err e e')
          with Inr ap p1' ne show ?thesis unfolding u by (simp add: Let_def)
        next
          case s2: (ok p2 p2')
          note c2 = psim_current [OF s2(3)]
          show ?thesis
          proof (cases "Type (current p2) = TokenLeftBrace")
            case lb: True
            note i = IHb [OF s2(3)]
            show ?thesis
            proof (cases "parseBlock n U p2")
              case None
              with i Inr ap p1' ne s2 c1 c2 lb show ?thesis unfolding u by (simp add: Let_def)
            next
              case (Some r)
              show ?thesis
              proof (cases r)
                case (Inl e)
                with Some i obtain e' where "parseBlock n U p2' = Some (Inl e')"
                  "same_error e e'" by auto
                with Some Inl Inr ap p1' ne s2 c1 c2 lb show ?thesis
                  unfolding u by (simp add: Let_def)
              next
                case r: (Inr sq)
                obtain subdirs p3 where sq: "sq = (subdirs, p3)" by (cases sq)
                with Some r i obtain p3'
                  where p3': "parseBlock n U p2' = Some (Inr (map crlf_directive subdirs, p3'))"
                    "psim p3 p3'"
                  by auto
                note c3 = psim_current [OF p3'(2)]
                show ?thesis
                proof (cases "Type (current p3) = TokenSemicolon")
                  case False
                  with Some r sq p3' Inr ap p1' ne s2 c1 c2 c3 lb show ?thesis
                    unfolding u by (simp add: Let_def)
                next
                  case sc: True
                  from p3'(2) show ?thesis
                  proof (cases rule: Parser_advance_psim [where U = U])
                    case (err e e')
                    with Some r sq p3' Inr ap p1' ne s2 c1 c2 c3 lb sc
                    show ?thesis unfolding u by (simp add: Let_def)
                  next
                    case a4: (ok p4 p4')
                    with Some r sq p3' Inr ap p1' ne s2 c1 c2 c3 lb sc
                    show ?thesis unfolding u by (simp add: Let_def)
                  qed
                qed
              qed
            qed
          next
            case nb: False
            show ?thesis
            proof (cases "Type (current p1) \<noteq> TokenNewline \<and> Type (current p2) = TokenSemicolon")
              case True
              from s2(3) show ?thesis
              proof (cases rule: Parser_advance_psim [where U = U])
                case (err e e')
                with Inr ap p1' ne s2 c1 c2 nb True
                show ?thesis unfolding u by (simp add: Let_def)
              next
                case a3: (ok p3 p3')
                with Inr ap p1' ne s2 c1 c2 nb True show ?thesis
                  unfolding u by (simp add: Let_def)
              qed
            next
              case False
              with Inr ap p1' ne s2 c1 c2 nb show ?thesis
                unfolding u by (auto simp: Let_def)
            qed
          qed
        qed
      qed
    qed
  qed
  from ds d bl show ?case by blast
qed

lemma NewParser_sim:
  obtains (err) e e' where "NewParser U s = Inl e" "NewParser U (crlf s) = Inl e'"
      "same_error e e'"
    | (ok) p p' where "NewParser U s = Inr p" "NewParser U (crlf s) = Inr p'" "psim p p'"
proof -
  let ?c = "\<lparr>Type = TokenEOF, Value = [], Line = 0, Column = 0\<rparr>"
  have "sim (lexer \<lparr>lexer = NewLexer s, current = ?c\<rparr>)
          (lexer \<lparr>lexer = NewLexer (crlf s), current = ?c\<rparr>)"
    by (simp add: sim_def NewLexer_def rest_def)
  then show ?thesis
  proof (cases rule: Parser_advance_sim [where U = U])
    case (err e e')
    then show ?thesis unfolding NewParser_def [symmetric] by (rule that(1))
  next
    case (ok q q')
    then show ?thesis unfolding NewParser_def [symmetric] by (rule that(2))
  qed
qed

lemma parse_text_crlf:
  "(parse_text n U s = None \<longrightarrow> parse_text n U (crlf s) = None)
   \<and> (\<forall>e. parse_text n U s = Some (Inl e) \<longrightarrow>
         (\<exists>e'. parse_text n U (crlf s) = Some (Inl e') \<and> same_error e e'))
   \<and> (\<forall>cu. parse_text n U s = Some (Inr cu) \<longrightarrow>
         parse_text n U (crlf s) = Some (Inr (crlf_unit cu)))"
proof (cases rule: NewParser_sim [of U s])
  case (err e e')
  then show ?thesis by (simp add: parse_text_def)
next
  case (ok p p')
  note i = parser_sim [of n U, THEN conjunct1, rule_format, OF ok(3), of False "[]", simplified]
  show ?thesis
  proof (cases "parseDirectives n U False p []")
    case None
    with i ok show ?thesis by (simp add: parse_text_def Parse_def)
  next
    case (Some r)
    show ?thesis
    proof (cases r)
      case (Inl e)
      with Some i obtain e' where "parseDirectives n U False p' [] = Some (Inl e')"
        "same_error e e'" by auto
      with Some Inl ok show ?thesis by (simp add: parse_text_def Parse_def)
    next
      case r: (Inr dq)
      obtain ds q where "dq = (ds, q)" by (cases dq)
      with Some r i ok show ?thesis by (auto simp: parse_text_def Parse_def crlf_unit_def)
    qed
  qed
qed

text \<open>An unquoted or single-quoted argument holds no line feed.\<close>

lemma scanSimpleArgument_loop_no_LF:
  "scanSimpleArgument_loop U tok l buf = Inr (t, l1) \<Longrightarrow> 0x0A \<notin> set buf \<Longrightarrow>
   0x0A \<notin> set (Value t)"
proof (induction U tok l buf rule: scanSimpleArgument_loop.induct)
  case (1 U tok l buf)
  have a: "IsArgumentChar U r \<Longrightarrow> r \<noteq> 0x0A" for r
    by (auto simp: IsArgumentChar_def IsLineTerminator_def)
  have b: "\<not> IsLineTerminator r \<Longrightarrow> r \<noteq> 0x0A" for r
    by (auto simp: IsLineTerminator_def)
  from "1.prems" show ?case
    apply (subst (asm) scanSimpleArgument_loop.simps)
    using "1.IH" a b
    by (auto simp: Let_def makeToken_def split: if_splits)
qed

lemma scanSingleQuoted_loop_no_LF:
  "scanSingleQuoted_loop U tok l buf = Inr (t, l1) \<Longrightarrow> 0x0A \<notin> set buf \<Longrightarrow>
   0x0A \<notin> set (Value t)"
proof (induction U tok l buf rule: scanSingleQuoted_loop.induct)
  case (1 U tok l buf)
  have b: "\<not> IsLineTerminator r \<Longrightarrow> r \<noteq> 0x0A" for r
    by (auto simp: IsLineTerminator_def)
  from "1.prems" show ?case
    apply (subst (asm) scanSingleQuoted_loop.simps)
    using "1.IH" b
    by (auto simp: Let_def split: if_splits)
qed

text \<open>
  C4, as the code has it. For every text, replacing every lone line feed by CR LF gives a
  parse with the same directives, the same nesting and the same number of arguments in every
  directive; an argument differs only where a line feed stands in its value, which then has
  CR LF in its place. Only a triple-quoted argument copies line terminators into its value:
  an unquoted or single-quoted argument holds no line feed, and an argument with no line
  feed is the same in both trees. When the text does not parse, the text with CR LF does not
  parse either, with the same error at the same line (the column in the message may differ,
  because a triple-quoted argument counts the added carriage returns). A carriage return
  followed by a line feed where a token starts is one line terminator: one newline token,
  the line counter one higher and the column back at 1, as for a lone line feed.
\<close>

theorem crlf_same_tree:
  "(parse U s = Some (Inr cu) \<longrightarrow> parse U (crlf s) = Some (Inr (crlf_unit cu)))
   \<and> (parse U s = Some (Inl e) \<longrightarrow>
        (\<exists>e'. parse U (crlf s) = Some (Inl e') \<and> same_error e e'))
   \<and> map shape (Directives (crlf_unit cu)) = map shape (Directives cu)
   \<and> (0x0A \<notin> set a \<longrightarrow> crlf a = a)
   \<and> (scanSimpleArgument_loop U tok l [] = Inr (t, l1) \<longrightarrow> 0x0A \<notin> set (Value t))
   \<and> (scanSingleQuoted_loop U tok l [] = Inr (t, l1) \<longrightarrow> 0x0A \<notin> set (Value t))
   \<and> (pos l < length (input l) \<and> peek l = 0x0D \<and> peek (snd (advance l)) = 0x0A \<longrightarrow>
        scanNewline l =
          Inr (\<lparr>Type = TokenNewline, Value = [], Line = line l, Column = column l\<rparr>,
               l\<lparr>pos := pos l + 2, line := line l + 1, column := 1\<rparr>))
   \<and> (pos l < length (input l) \<and> peek l = 0x0A \<longrightarrow>
        scanNewline l =
          Inr (\<lparr>Type = TokenNewline, Value = [], Line = line l, Column = column l\<rparr>,
               l\<lparr>pos := pos l + 1, line := line l + 1, column := 1\<rparr>))"
proof (intro conjI impI)
  note c = parse_text_crlf [of "2 * length s + 1" U s]
  assume "parse U s = Some (Inr cu)"
  with c have "parse_text (2 * length s + 1) U (crlf s) = Some (Inr (crlf_unit cu))"
    by (simp add: parse_def)
  then show "parse U (crlf s) = Some (Inr (crlf_unit cu))" by (rule parse_text_parse)
next
  note c = parse_text_crlf [of "2 * length s + 1" U s]
  assume "parse U s = Some (Inl e)"
  with c obtain e' where e': "parse_text (2 * length s + 1) U (crlf s) = Some (Inl e')"
    "same_error e e'"
    by (auto simp: parse_def)
  from parse_text_parse [OF e'(1)] e'(2)
  show "\<exists>e'. parse U (crlf s) = Some (Inl e') \<and> same_error e e'" by blast
next
  show "map shape (Directives (crlf_unit cu)) = map shape (Directives cu)"
    by (simp add: crlf_unit_def shape_crlf)
next
  assume "0x0A \<notin> set a"
  then show "crlf a = a" by (rule crlf_id)
next
  assume "scanSimpleArgument_loop U tok l [] = Inr (t, l1)"
  then show "0x0A \<notin> set (Value t)" by (rule scanSimpleArgument_loop_no_LF) simp
next
  assume "scanSingleQuoted_loop U tok l [] = Inr (t, l1)"
  then show "0x0A \<notin> set (Value t)" by (rule scanSingleQuoted_loop_no_LF) simp
next
  assume a: "pos l < length (input l) \<and> peek l = 0x0D \<and> peek (snd (advance l)) = 0x0A"
  then have "pos (snd (advance l)) < length (input (snd (advance l)))"
    by (auto simp: peek_def split: if_splits)
  with a show "scanNewline l =
          Inr (\<lparr>Type = TokenNewline, Value = [], Line = line l, Column = column l\<rparr>,
               l\<lparr>pos := pos l + 2, line := line l + 1, column := 1\<rparr>)"
    by (simp add: scanNewline_def Let_def case_prod_beta makeToken_def)
       (simp add: advance_def)
next
  assume a: "pos l < length (input l) \<and> peek l = 0x0A"
  then show "scanNewline l =
          Inr (\<lparr>Type = TokenNewline, Value = [], Line = line l, Column = column l\<rparr>,
               l\<lparr>pos := pos l + 1, line := line l + 1, column := 1\<rparr>)"
    by (simp add: scanNewline_def Let_def case_prod_beta makeToken_def)
       (simp add: advance_def)
qed

theorem crlf_same_tree_witness:
  "parse Latin1 (str ''a \"\"\"x'' @ [0x0A] @ str ''y\"\"\"'' @ [0x0A] @ str ''b {'' @ [0x0A] @ str ''c }'')
     = Some (Inr (ConfigurationUnit
         [Directive [str ''a'', str ''x'' @ [0x0A] @ str ''y''] [],
          Directive [str ''b''] [Directive [str ''c''] []]]))
   \<and> parse Latin1 (str ''a \"\"\"x'' @ [0x0D, 0x0A] @ str ''y\"\"\"'' @ [0x0D, 0x0A] @ str ''b {''
        @ [0x0D, 0x0A] @ str ''c }'')
     = Some (Inr (ConfigurationUnit
         [Directive [str ''a'', str ''x'' @ [0x0D, 0x0A] @ str ''y''] [],
          Directive [str ''b''] [Directive [str ''c''] []]]))
   \<and> (\<exists>e'. parse Latin1 (str ''a'' @ [0x0D, 0x0A] @ str ''}'') = Some (Inl e')
          \<and> same_error (UnmatchedRightBrace 2) e')
   \<and> crlf (str ''ab'') = str ''ab''
   \<and> scanNewline \<lparr>input = str ''a'' @ [0x0D, 0x0A], pos = 1, line = 1, column = 2\<rparr>
     = Inr (\<lparr>Type = TokenNewline, Value = [], Line = 1, Column = 2\<rparr>,
            \<lparr>input = str ''a'' @ [0x0D, 0x0A], pos = 3, line = 2, column = 1\<rparr>)
   \<and> scanNewline \<lparr>input = str ''a'' @ [0x0A], pos = 1, line = 1, column = 2\<rparr>
     = Inr (\<lparr>Type = TokenNewline, Value = [], Line = 1, Column = 2\<rparr>,
            \<lparr>input = str ''a'' @ [0x0A], pos = 2, line = 2, column = 1\<rparr>)"
proof -
  let ?s = "str ''a \"\"\"x'' @ [0x0A] @ str ''y\"\"\"'' @ [0x0A] @ str ''b {'' @ [0x0A] @ str ''c }''"
  let ?cu = "ConfigurationUnit
         [Directive [str ''a'', str ''x'' @ [0x0A] @ str ''y''] [],
          Directive [str ''b''] [Directive [str ''c''] []]]"
  let ?e = "str ''a'' @ [0x0A] @ str ''}''"
  let ?l = "\<lparr>input = str ''a'' @ [0x0D, 0x0A], pos = 1, line = 1, column = 2\<rparr>"
  let ?m = "\<lparr>input = str ''a'' @ [0x0A], pos = 1, line = 1, column = 2\<rparr>"
  have c: "crlf ?s = str ''a \"\"\"x'' @ [0x0D, 0x0A] @ str ''y\"\"\"'' @ [0x0D, 0x0A] @ str ''b {''
        @ [0x0D, 0x0A] @ str ''c }''"
    by (simp add: crlf_def str_def)
  have cu: "crlf_unit ?cu = ConfigurationUnit
         [Directive [str ''a'', str ''x'' @ [0x0D, 0x0A] @ str ''y''] [],
          Directive [str ''b''] [Directive [str ''c''] []]]"
    by (simp add: crlf_unit_def crlf_def str_def)
  have ce: "crlf ?e = str ''a'' @ [0x0D, 0x0A] @ str ''}''"
    by (simp add: crlf_def str_def)
  have h1: "parse Latin1 ?s = Some (Inr ?cu)"
    by (simp add: run)
  have h2: "parse Latin1 ?e = Some (Inl (UnmatchedRightBrace 2))"
    by (simp add: run)
  have h4: "0x0A \<notin> set (str ''ab'')" by (simp add: str_def)
  have h7: "pos ?l < length (input ?l) \<and> peek ?l = 0x0D \<and> peek (snd (advance ?l)) = 0x0A"
    by (simp add: str_def peek_def advance_def)
  have h8: "pos ?m < length (input ?m) \<and> peek ?m = 0x0A"
    by (simp add: str_def peek_def)
  from crlf_same_tree [where s = ?s and U = Latin1 and cu = ?cu,
      THEN conjunct1, rule_format, OF h1, unfolded c cu]
    crlf_same_tree [where s = ?e and U = Latin1 and e = "UnmatchedRightBrace 2",
      THEN conjunct2, THEN conjunct1, rule_format, OF h2, unfolded ce]
    crlf_same_tree [where a = "str ''ab''",
      THEN conjunct2, THEN conjunct2, THEN conjunct2, THEN conjunct1, rule_format, OF h4]
    crlf_same_tree [where l = ?l, THEN conjunct2, THEN conjunct2, THEN conjunct2, THEN conjunct2,
      THEN conjunct2, THEN conjunct2, THEN conjunct1, rule_format, OF h7]
    crlf_same_tree [where l = ?m, THEN conjunct2, THEN conjunct2, THEN conjunct2, THEN conjunct2,
      THEN conjunct2, THEN conjunct2, THEN conjunct2, rule_format, OF h8]
    h1
  show ?thesis by simp
qed

text \<open>
  The claim as it is worded fails on a line feed inside a triple-quoted argument: with CR LF
  the argument has one character more.
\<close>

theorem crlf_counterexample:
  "parse Latin1 (str ''\"\"\"a'' @ [0x0A] @ str ''b\"\"\"'')
     = Some (Inr (ConfigurationUnit [Directive [[0x61, 0x0A, 0x62]] []]))
   \<and> parse Latin1 (str ''\"\"\"a'' @ [0x0D, 0x0A] @ str ''b\"\"\"'')
     = Some (Inr (ConfigurationUnit [Directive [[0x61, 0x0D, 0x0A, 0x62]] []]))
   \<and> crlf (str ''\"\"\"a'' @ [0x0A] @ str ''b\"\"\"'') = str ''\"\"\"a'' @ [0x0D, 0x0A] @ str ''b\"\"\"''
   \<and> ConfigurationUnit [Directive [[0x61, 0x0D, 0x0A, 0x62]] []]
       \<noteq> ConfigurationUnit [Directive [[0x61, 0x0A, 0x62]] []]"
proof -
  have 1: "parse Latin1 (str ''\"\"\"a'' @ [0x0A] @ str ''b\"\"\"'')
     = Some (Inr (ConfigurationUnit [Directive [[0x61, 0x0A, 0x62]] []]))"
    by (simp add: run)
  have 2: "parse Latin1 (str ''\"\"\"a'' @ [0x0D, 0x0A] @ str ''b\"\"\"'')
     = Some (Inr (ConfigurationUnit [Directive [[0x61, 0x0D, 0x0A, 0x62]] []]))"
    by (simp add: run)
  have 3: "crlf (str ''\"\"\"a'' @ [0x0A] @ str ''b\"\"\"'') = str ''\"\"\"a'' @ [0x0D, 0x0A] @ str ''b\"\"\"''"
    by (simp add: crlf_def str_def)
  have 4: "ConfigurationUnit [Directive [[0x61, 0x0D, 0x0A, 0x62]] []]
       \<noteq> ConfigurationUnit [Directive [[0x61, 0x0A, 0x62::int]] []]" by simp
  from 1 2 3 4 show ?thesis by blast
qed

end
